theory Spec2Isabelle
  imports Main "HOL-Library.Word"
begin

section \<open>Host values\<close>

text \<open>
  The values that the host runtime hands to the entry points, as far as the code
  distinguishes them. A \<open>Napi::Value\<close> is classified by the predicates \<open>IsNull\<close>,
  \<open>IsUndefined\<close>, \<open>IsBoolean\<close>, \<open>IsNumber\<close>, \<open>IsString\<close>, \<open>IsArray\<close> and
  \<open>IsObject\<close>. A number is an IEEE-754 binary64 value, kept as its 64-bit pattern. A
  string is the byte sequence that \<open>Utf8Value()\<close> returns. Arrays and objects are
  references into a store of host objects, so that a value can contain itself. \<open>Other\<close>
  stands for every value for which none of the seven predicates holds.
\<close>

type_synonym double = "64 word"

type_synonym addr = nat

datatype val =
    Null
  | Undefined
  | Boolean bool
  | Number double
  | String string
  | Ref addr
  | Other

text \<open>
  A host object, as the serializer reads it: \<open>is_array\<close> is the answer of \<open>IsArray()\<close>;
  \<open>elems\<close> are the values \<open>Get(0)\<close>, ..., \<open>Get(Length() - 1)\<close> of an array; \<open>props\<close>
  are the names returned by \<open>GetPropertyNames()\<close>, in that order, each with the value
  \<open>Get(key)\<close>; \<open>toJSON\<close> is \<open>Some r\<close> when \<open>Has("toJSON")\<close> holds and the member is a
  function, \<open>r\<close> being the value its call with the object as receiver returns. The
  call is taken to return normally and to leave the store unchanged.
\<close>

record hobject =
  is_array :: bool
  elems :: "val list"
  props :: "(string \<times> val) list"
  toJSON :: "val option"

type_synonym store = "addr \<Rightarrow> hobject"



text \<open>The exceptions thrown into the host.\<close>

datatype error = TypeError string

section \<open>URL parser (src/native/url_parser.cc)\<close>

text \<open>
  A \<open>std::string\<close> is a sequence of bytes; it is modelled as a \<open>string\<close>, a list of
  8-bit characters. Pointers into the buffer of a string are modelled as indices into
  the list.
\<close>

subsection \<open>Hex table\<close>

text \<open>
  \<open>initHexTable\<close> fills all 256 entries with \<open>-1\<close> and then overwrites the entries of
  \<open>'0'..'9'\<close>, \<open>'a'..'f'\<close> and \<open>'A'..'F'\<close> (three disjoint ranges) with the digit's value.
  Every reader of the table calls \<open>initHexTable\<close> first, so the table is modelled in its
  initialised state, indexed by the byte.
\<close>

definition HEX_TABLE :: "char \<Rightarrow> int" where
  "HEX_TABLE c =
     (let i = int (of_char c) in
      if int (of_char CHR ''0'') \<le> i \<and> i \<le> int (of_char CHR ''9'') then i - int (of_char CHR ''0'')
      else if int (of_char CHR ''a'') \<le> i \<and> i \<le> int (of_char CHR ''f'') then i - int (of_char CHR ''a'') + 10
      else if int (of_char CHR ''A'') \<le> i \<and> i \<le> int (of_char CHR ''F'') then i - int (of_char CHR ''A'') + 10
      else - 1)"

subsection \<open>UrlParser::DecodeURIComponent\<close>

text \<open>
  The \<open>for\<close> loop over the index \<open>i\<close>, with \<open>result\<close> as accumulator. A \<open>continue\<close>
  after \<open>i += 2\<close> runs the loop's \<open>i++\<close>, so the next index is \<open>i + 2 + 1\<close>.
  \<open>static_cast<char>((hi << 4) | lo)\<close> keeps the low eight bits, as \<open>char_of\<close> does.
\<close>

function decode_loop :: "string \<Rightarrow> nat \<Rightarrow> string \<Rightarrow> string" where
  "decode_loop data i result =
     (if i < length data then
        (let c = data ! i in
         if c = CHR ''%'' \<and> i + 2 < length data then
           (let hi = HEX_TABLE (data ! (i + 1));
                lo = HEX_TABLE (data ! (i + 2)) in
            if hi \<ge> 0 \<and> lo \<ge> 0
            then decode_loop data (i + 2 + 1) (result @ [char_of (or (push_bit 4 hi) lo)])
            else decode_loop data (i + 1) (result @ [c]))
         else if c = CHR ''+'' then decode_loop data (i + 1) (result @ [CHR '' ''])
         else decode_loop data (i + 1) (result @ [c]))
      else result)"
  by pat_completeness auto
termination
  by (relation "measure (\<lambda>(data, i, result). length data - i)") auto

definition DecodeURIComponent :: "string \<Rightarrow> string" where
  "DecodeURIComponent encoded = decode_loop encoded 0 []"

subsection \<open>The reference percent-decoder of the specification\<close>

text \<open>
  The decoder as the specification words it, by cases on the remaining input: a \<open>%\<close>
  followed by two valid hex digits gives one byte and consumes three; any other \<open>%\<close>
  is passed through and consumes one; \<open>+\<close> gives a space; every other byte is passed
  through. A byte is a valid hex digit when the hex table does not hold the sentinel.
\<close>

definition is_hex :: "char \<Rightarrow> bool" where
  "is_hex c = (HEX_TABLE c \<ge> 0)"

definition hex_byte :: "char \<Rightarrow> char \<Rightarrow> char" where
  "hex_byte h l = char_of (or (push_bit 4 (HEX_TABLE h)) (HEX_TABLE l))"

fun percent_decode :: "string \<Rightarrow> string" where
  "percent_decode [] = []"
| "percent_decode (c # rest) =
     (if c = CHR ''%'' then
        (case rest of
           h # l # rest' \<Rightarrow>
             if is_hex h \<and> is_hex l then hex_byte h l # percent_decode rest'
             else c # percent_decode rest
         | _ \<Rightarrow> c # percent_decode rest)
      else if c = CHR ''+'' then CHR '' '' # percent_decode rest
      else c # percent_decode rest)"

subsection \<open>UrlParser::Parse\<close>

text \<open>
  \<open>memchr(p, c, n)\<close> on the buffer \<open>data\<close>: the first index in \<open>[p, p + n)\<close> that
  holds \<open>c\<close>, or the null pointer. Every call of the source stays inside the buffer.
\<close>

fun memchr :: "string \<Rightarrow> nat \<Rightarrow> char \<Rightarrow> nat \<Rightarrow> nat option" where
  "memchr data p c 0 = None"
| "memchr data p c (Suc n) = (if data ! p = c then Some p else memchr data (Suc p) c n)"

text \<open>\<open>std::string(p, n)\<close>: the \<open>n\<close> bytes that start at index \<open>p\<close>.\<close>

definition substr :: "string \<Rightarrow> nat \<Rightarrow> nat \<Rightarrow> string" where
  "substr data p n = take n (drop p data)"

text \<open>
  The \<open>while (pos < end)\<close> loop. \<open>UrlParser::Parse\<close> and \<open>ParseQuery\<close> contain the
  same loop statement for statement; the first stores into a \<open>std::unordered_map\<close>, the
  second into a fresh host object by \<open>Set\<close>. Both stores are modelled as a map from
  keys to values, where a later store to a key replaces the earlier one.
\<close>

function query_loop :: "string \<Rightarrow> nat \<Rightarrow> nat \<Rightarrow> (string \<rightharpoonup> string) \<Rightarrow> (string \<rightharpoonup> string)" where
  "query_loop data pos endp query =
     (if pos < endp then
        (let amp = memchr data pos CHR ''&'' (endp - pos);
             pairEnd = (case amp of Some a \<Rightarrow> a | None \<Rightarrow> endp);
             pairLen = pairEnd - pos;
             eq = memchr data pos CHR ''='' pairLen
         in query_loop data (pairEnd + 1) endp
              (case eq of
                 Some e \<Rightarrow>
                   if e > pos then
                     query(DecodeURIComponent (substr data pos (e - pos)) \<mapsto>
                           DecodeURIComponent (substr data (e + 1) (pairEnd - e - 1)))
                   else query
               | None \<Rightarrow> query))
      else query)"
  by pat_completeness auto
termination
proof (relation "measure (\<lambda>(data, pos, endp, query). endp - pos)")
  show "wf (measure (\<lambda>(data, pos, endp, query). endp - pos))" by simp
next
  fix data :: string and pos endp :: nat and query :: "string \<rightharpoonup> string"
    and amp pairEnd pairLen eq
  assume lt: "pos < endp"
    and amp: "amp = memchr data pos CHR ''&'' (endp - pos)"
    and pe: "pairEnd = (case amp of None \<Rightarrow> endp | Some a \<Rightarrow> a)"
  have ge: "p \<le> a" if "memchr data p c n = Some a" for p c n a
    using that by (induction data p c n rule: memchr.induct) (auto split: if_splits)
  have "pos \<le> pairEnd"
  proof (cases amp)
    case None
    with pe lt show ?thesis by simp
  next
    case (Some a)
    with amp have "memchr data pos CHR ''&'' (endp - pos) = Some a" by simp
    from ge [OF this] pe Some show ?thesis by simp
  qed
  with lt show "((data, pairEnd + 1, endp,
        case eq of None \<Rightarrow> query
        | Some e \<Rightarrow>
            if pos < e
            then query(DecodeURIComponent (substr data pos (e - pos)) \<mapsto>
                       DecodeURIComponent (substr data (e + 1) (pairEnd - e - 1)))
            else query),
       data, pos, endp, query) \<in> measure (\<lambda>(data, pos, endp, query). endp - pos)"
    by simp
qed

record ParseResult =
  pathname :: string
  query :: "string \<rightharpoonup> string"

definition Parse :: "string \<Rightarrow> ParseResult" where
  "Parse url =
     (let len = length url in
      case memchr url 0 CHR ''?'' len of
        None \<Rightarrow> \<lparr>pathname = url, query = Map.empty\<rparr>
      | Some qmark \<Rightarrow>
          (let pathLen = qmark - 0;
               queryStart = qmark + 1;
               queryLen = len - pathLen - 1
           in \<lparr>pathname = substr url 0 pathLen,
               query = query_loop url queryStart (queryStart + queryLen) Map.empty\<rparr>))"

subsection \<open>Entry points of the URL parser\<close>




subsection \<open>The query splitter of the specification\<close>







subsection \<open>The percent-encoder of the specification\<close>

text \<open>
  The encoder of the round-trip property: every byte that is not an ASCII letter or
  digit becomes \<open>%XX\<close>, the two hex digits of the byte, upper or lower case as \<open>upper\<close>
  says; letters and digits stay as they are.
\<close>

definition is_alnum :: "char \<Rightarrow> bool" where
  "is_alnum c =
     (let i = (of_char c :: nat) in
      (of_char CHR ''0'' \<le> i \<and> i \<le> of_char CHR ''9'') \<or>
      (of_char CHR ''A'' \<le> i \<and> i \<le> of_char CHR ''Z'') \<or>
      (of_char CHR ''a'' \<le> i \<and> i \<le> of_char CHR ''z''))"

definition hex_digit :: "bool \<Rightarrow> nat \<Rightarrow> char" where
  "hex_digit upper n = (if upper then ''0123456789ABCDEF'' else ''0123456789abcdef'') ! n"

fun percent_encode :: "bool \<Rightarrow> string \<Rightarrow> string" where
  "percent_encode upper [] = []"
| "percent_encode upper (b # bs) =
     (if is_alnum b then b # percent_encode upper bs
      else CHR ''%'' # hex_digit upper (of_char b div 16) # hex_digit upper (of_char b mod 16)
           # percent_encode upper bs)"


section \<open>JSON serializer (src/native/json_stringify.cc)\<close>

subsection \<open>Escape table\<close>

text \<open>
  \<open>initEscapeTable\<close> gives seven bytes an escape string; every other entry stays the
  null pointer (\<open>None\<close>). \<open>Stringify\<close> calls it before it serializes.
\<close>

definition ESCAPE_TABLE :: "char \<Rightarrow> string option" where
  "ESCAPE_TABLE c =
     (if c = CHR 0x22 then Some [CHR 0x5C, CHR 0x22]
      else if c = CHR 0x5C then Some [CHR 0x5C, CHR 0x5C]
      else if c = CHR 0x08 then Some [CHR 0x5C, CHR ''b'']
      else if c = CHR 0x0C then Some [CHR 0x5C, CHR ''f'']
      else if c = CHR 0x0A then Some [CHR 0x5C, CHR ''n'']
      else if c = CHR 0x0D then Some [CHR 0x5C, CHR ''r'']
      else if c = CHR 0x09 then Some [CHR 0x5C, CHR ''t'']
      else None)"

subsection \<open>FastStringBuilder\<close>

text \<open>
  The buffer is a \<open>std::vector<char>\<close>, whose \<open>size()\<close> is the capacity the builder
  works with, and \<open>pos_\<close> counts the committed bytes. The members \<open>buffer_\<close>
  and \<open>pos_\<close> are the fields \<open>sb_buffer\<close> and \<open>sb_pos\<close>. Sizes are natural numbers: a
  \<open>size_t\<close> sum or product here would wrap only for a buffer of \<open>2^63\<close> bytes.
\<close>

record FastStringBuilder =
  sb_buffer :: "char list"
  sb_pos :: nat

definition new_builder :: FastStringBuilder where
  "new_builder = \<lparr>sb_buffer = replicate 4096 (CHR 0x00), sb_pos = 0\<rparr>"

text \<open>\<open>std::vector::resize\<close>: keeps the first \<open>n\<close> elements and fills up with zero bytes.\<close>

definition resize :: "char list \<Rightarrow> nat \<Rightarrow> char list" where
  "resize v n = take n v @ replicate (n - length v) (CHR 0x00)"

definition ensureCapacity :: "FastStringBuilder \<Rightarrow> nat \<Rightarrow> FastStringBuilder" where
  "ensureCapacity sb needed =
     (if sb_pos sb + needed > length (sb_buffer sb)
      then sb\<lparr>sb_buffer := resize (sb_buffer sb) ((sb_pos sb + needed) * 2)\<rparr>
      else sb)"

text \<open>
  The three overloads of \<open>append\<close>, for a byte, for a pointer with a length and for a
  C string, are \<open>append_char\<close>, \<open>append_bytes\<close> and \<open>append_cstr\<close>.
\<close>

definition append_char :: "FastStringBuilder \<Rightarrow> char \<Rightarrow> FastStringBuilder" where
  "append_char sb c =
     (let sb' = ensureCapacity sb 1
      in sb'\<lparr>sb_buffer := (sb_buffer sb')[sb_pos sb' := c], sb_pos := sb_pos sb' + 1\<rparr>)"

text \<open>
  \<open>append(str, len)\<close>: \<open>memcpy\<close> of \<open>len\<close> bytes to \<open>&buffer_[pos_]\<close>. Every call of
  the source passes a \<open>len\<close> of at most the length of \<open>str\<close>.
\<close>

definition append_bytes :: "FastStringBuilder \<Rightarrow> string \<Rightarrow> nat \<Rightarrow> FastStringBuilder" where
  "append_bytes sb str len =
     (let sb' = ensureCapacity sb len
      in sb'\<lparr>sb_buffer := take (sb_pos sb') (sb_buffer sb') @ take len str
                          @ drop (sb_pos sb' + len) (sb_buffer sb'),
              sb_pos := sb_pos sb' + len\<rparr>)"

text \<open>\<open>append(str)\<close> with \<open>strlen\<close>; the strings passed hold no zero byte.\<close>

definition append_cstr :: "FastStringBuilder \<Rightarrow> string \<Rightarrow> FastStringBuilder" where
  "append_cstr sb str = append_bytes sb str (length str)"

definition toString :: "FastStringBuilder \<Rightarrow> string" where
  "toString sb = take (sb_pos sb) (sb_buffer sb)"

text \<open>The invariant of the builder: the committed bytes lie inside the buffer.\<close>

definition wf_builder :: "FastStringBuilder \<Rightarrow> bool" where
  "wf_builder sb = (sb_pos sb \<le> length (sb_buffer sb))"

subsection \<open>Number formatting\<close>

text \<open>Decimal digits of a natural number, most significant first, without leading zeros.\<close>

definition digit_char :: "nat \<Rightarrow> char" where
  "digit_char n = char_of (of_char CHR ''0'' + n)"

function show_nat :: "nat \<Rightarrow> string" where
  "show_nat n = (if n < 10 then [digit_char n] else show_nat (n div 10) @ [digit_char (n mod 10)])"
  by pat_completeness auto
termination
  by (relation "measure (\<lambda>n. n)") auto

text \<open>\<open>snprintf(buf, 32, "%ld", value)\<close> for a 64-bit \<open>long\<close>: at most 20 bytes.\<close>

definition snprintf_ld :: "int \<Rightarrow> string" where
  "snprintf_ld v = (if v < 0 then CHR ''-'' # show_nat (nat (- v)) else show_nat (nat v))"

text \<open>
  An IEEE-754 binary64 value by its fields: sign (bit 63), biased exponent (bits 52 to
  62) and fraction (bits 0 to 51).
\<close>

definition sign_bit :: "double \<Rightarrow> bool" where
  "sign_bit d = bit d 63"

definition exponent_field :: "double \<Rightarrow> nat" where
  "exponent_field d = unat (take_bit 11 (drop_bit 52 d))"

definition fraction_field :: "double \<Rightarrow> nat" where
  "fraction_field d = unat (take_bit 52 d)"

definition isnan :: "double \<Rightarrow> bool" where
  "isnan d = (exponent_field d = 2047 \<and> fraction_field d \<noteq> 0)"

definition isinf :: "double \<Rightarrow> bool" where
  "isinf d = (exponent_field d = 2047 \<and> fraction_field d = 0)"

text \<open>
  The value of a finite double is \<open>snum d / den d\<close>: the significand (with its implicit
  leading bit unless the number is subnormal) times a power of two, which is kept as a
  numerator or a denominator.
\<close>

definition significand :: "double \<Rightarrow> nat" where
  "significand d =
     (if exponent_field d = 0 then fraction_field d else 2 ^ 52 + fraction_field d)"

definition exponent2 :: "double \<Rightarrow> int" where
  "exponent2 d = (if exponent_field d = 0 then - 1074 else int (exponent_field d) - 1075)"

definition mag_num :: "double \<Rightarrow> nat" where
  "mag_num d = significand d * 2 ^ nat (exponent2 d)"

definition den :: "double \<Rightarrow> nat" where
  "den d = 2 ^ nat (- exponent2 d)"

definition snum :: "double \<Rightarrow> int" where
  "snum d = (if sign_bit d then - int (mag_num d) else int (mag_num d))"

text \<open>
  \<open>static_cast<int64_t>(num)\<close> truncates towards zero. For a value outside the range
  of \<open>int64_t\<close> the C++ standard leaves the result open; the model returns \<open>-2^63\<close>, the
  result of the x86-64 conversion instruction. The serializer uses the result only under
  the guard of the safe-integer range, where the conversion is defined.
\<close>

definition to_int64 :: "double \<Rightarrow> int" where
  "to_int64 d =
     (let t = (if sign_bit d then - int (mag_num d div den d) else int (mag_num d div den d))
      in if - (2 ^ 63) \<le> t \<and> t < 2 ^ 63 then t else - (2 ^ 63))"

text \<open>
  \<open>num == static_cast<int64_t>(num)\<close> compares the double with the integer converted
  back to double. The integers that \<open>to_int64\<close> returns (a truncated double, or \<open>-2^63\<close>)
  are doubles themselves, so the conversion is exact and the comparison is one of values.
\<close>

definition double_eq_int :: "double \<Rightarrow> int \<Rightarrow> bool" where
  "double_eq_int d i = (snum d = i * int (den d))"

text \<open>Comparison of a finite double with an integer constant that is a double itself.\<close>

definition double_ge_int :: "double \<Rightarrow> int \<Rightarrow> bool" where
  "double_ge_int d i = (snum d \<ge> i * int (den d))"

definition double_le_int :: "double \<Rightarrow> int \<Rightarrow> bool" where
  "double_le_int d i = (snum d \<le> i * int (den d))"

text \<open>
  \<open>snprintf(buf, 32, "%.15g", value)\<close> for a finite value, after the C standard: let
  \<open>X\<close> be the decimal exponent of the value rounded to 15 significant digits; if
  \<open>-4 \<le> X < 15\<close> the style is \<open>f\<close> with \<open>14 - X\<close> fraction digits, otherwise the
  style is \<open>e\<close> with 14 fraction digits (the exponent has a sign and at least two
  digits); then trailing zeros of the fraction are removed, and the decimal point as
  well when no fraction digit remains. Rounding is to nearest, ties to even, on the
  exact value. The result has at most 22 bytes.
\<close>

text \<open>\<open>floor (log10 (n / m))\<close> for \<open>n \<ge> m > 0\<close>, and its negative counterpart for \<open>0 < n < m\<close>.\<close>

function log10_up :: "nat \<Rightarrow> nat \<Rightarrow> nat" where
  "log10_up n m = (if m = 0 \<or> n < 10 * m then 0 else Suc (log10_up n (10 * m)))"
  by pat_completeness auto
termination
  by (relation "measure (\<lambda>(n, m). n - m)") auto

function log10_down :: "nat \<Rightarrow> nat \<Rightarrow> nat" where
  "log10_down n m = (if n = 0 \<or> m \<le> n then 0 else Suc (log10_down (10 * n) m))"
  by pat_completeness auto
termination
  by (relation "measure (\<lambda>(n, m). m - n)") auto

definition decimal_exponent :: "nat \<Rightarrow> nat \<Rightarrow> int" where
  "decimal_exponent n m = (if m \<le> n then int (log10_up n m) else - int (log10_down n m))"

text \<open>\<open>n / m\<close> rounded to the nearest integer, ties to even.\<close>

definition round_div :: "nat \<Rightarrow> nat \<Rightarrow> nat" where
  "round_div n m =
     (let q = n div m; r = n mod m
      in if 2 * r > m \<or> (2 * r = m \<and> odd q) then q + 1 else q)"

text \<open>\<open>n / m * 10 ^ k\<close> rounded, for an integer \<open>k\<close> of either sign.\<close>

definition scaled :: "nat \<Rightarrow> nat \<Rightarrow> int \<Rightarrow> nat" where
  "scaled n m k = (if k \<ge> 0 then round_div (n * 10 ^ nat k) m else round_div n (m * 10 ^ nat (- k)))"

text \<open>The 15 significant digits and the decimal exponent of \<open>n / m > 0\<close>.\<close>

definition digits15 :: "nat \<Rightarrow> nat \<Rightarrow> nat \<times> int" where
  "digits15 n m =
     (let X = decimal_exponent n m;
          D = scaled n m (14 - X)
      in if D \<ge> 10 ^ 15 then (scaled n m (14 - (X + 1)), X + 1) else (D, X))"

definition strip_zeros :: "string \<Rightarrow> string" where
  "strip_zeros fs = rev (dropWhile (\<lambda>c. c = CHR ''0'') (rev fs))"

text \<open>A fraction part: nothing when no digit remains.\<close>

definition fraction_part :: "string \<Rightarrow> string" where
  "fraction_part fs = (if strip_zeros fs = [] then [] else CHR ''.'' # strip_zeros fs)"

definition exponent_part :: "int \<Rightarrow> string" where
  "exponent_part X =
     CHR ''e'' # (if X < 0 then CHR ''-'' else CHR ''+'')
       # (if \<bar>X\<bar> < 10 then CHR ''0'' # show_nat (nat \<bar>X\<bar>) else show_nat (nat \<bar>X\<bar>))"

definition format_g15 :: "nat \<Rightarrow> nat \<Rightarrow> string" where
  "format_g15 n m =
     (if n = 0 then ''0''
      else
        (let (D, X) = digits15 n m; ds = show_nat D
         in if X < - 4 \<or> X \<ge> 15 then
              take 1 ds @ fraction_part (drop 1 ds) @ exponent_part X
            else if X \<ge> 0 then
              take (nat X + 1) ds @ fraction_part (drop (nat X + 1) ds)
            else
              ''0'' @ fraction_part (replicate (nat (- X) - 1) (CHR ''0'') @ ds)))"

definition snprintf_g15 :: "double \<Rightarrow> string" where
  "snprintf_g15 d = (if sign_bit d then ''-'' else []) @ format_g15 (mag_num d) (den d)"

definition appendInt :: "FastStringBuilder \<Rightarrow> int \<Rightarrow> FastStringBuilder" where
  "appendInt sb v = (let buf = snprintf_ld v; len = length buf in append_bytes sb buf len)"

definition appendDouble :: "FastStringBuilder \<Rightarrow> double \<Rightarrow> FastStringBuilder" where
  "appendDouble sb v = (let buf = snprintf_g15 v; len = length buf in append_bytes sb buf len)"

subsection \<open>escapeStringFast\<close>

text \<open>
  \<open>snprintf(buf, 8, "\\u%04x", c)\<close> for a byte \<open>c\<close>: a backslash, \<open>u\<close> and four
  lower-case hex digits; the caller appends these six bytes.
\<close>

definition snprintf_u04x :: "char \<Rightarrow> string" where
  "snprintf_u04x c =
     (let n = (of_char c :: nat)
      in [CHR 0x5C, CHR ''u'', hex_digit False (n div 4096 mod 16), hex_digit False (n div 256 mod 16),
          hex_digit False (n div 16 mod 16), hex_digit False (n mod 16)])"

text \<open>The \<open>for\<close> loop of \<open>escapeStringFast\<close>; it returns the builder and \<open>lastPos\<close>.\<close>

function escape_loop :: "string \<Rightarrow> nat \<Rightarrow> nat \<Rightarrow> FastStringBuilder \<Rightarrow> FastStringBuilder \<times> nat" where
  "escape_loop data i lastPos sb =
     (if i < length data then
        (let c = data ! i in
         if (of_char c :: nat) < 0x20 \<or> c = CHR 0x22 \<or> c = CHR 0x5C then
           (let sb1 = (if i > lastPos then append_bytes sb (drop lastPos data) (i - lastPos) else sb);
                sb2 = (case ESCAPE_TABLE c of
                         Some e \<Rightarrow> append_cstr sb1 e
                       | None \<Rightarrow> append_bytes sb1 (snprintf_u04x c) 6)
            in escape_loop data (i + 1) (i + 1) sb2)
         else escape_loop data (i + 1) lastPos sb)
      else (sb, lastPos))"
  by pat_completeness auto
termination
  by (relation "measure (\<lambda>(data, i, lastPos, sb). length data - i)") auto

definition escapeStringFast :: "FastStringBuilder \<Rightarrow> string \<Rightarrow> FastStringBuilder" where
  "escapeStringFast sb str =
     (let sb0 = append_char sb (CHR 0x22);
          (sb1, lastPos) = escape_loop str 0 0 sb0;
          sb2 = (if lastPos < length str
                 then append_bytes sb1 (drop lastPos str) (length str - lastPos) else sb1)
      in append_char sb2 (CHR 0x22))"

subsection \<open>stringifyValueFast, stringifyArrayFast, stringifyObjectFast\<close>

text \<open>
  The three functions call each other without a bound that the code itself enforces on
  every path, so they take fuel: the first argument bounds the nesting of calls of
  \<open>stringifyValueFast\<close>, and \<open>None\<close> says that the bound was reached. The serializer
  returns on an input exactly when some amount of fuel gives \<open>Some\<close>. The \<open>for\<close> statements of
  \<open>stringifyArrayFast\<close> and \<open>stringifyObjectFast\<close> are \<open>array_loop\<close> and \<open>object_loop\<close>,
  over the index \<open>i\<close>.
\<close>

function stringifyValueFast :: "nat \<Rightarrow> store \<Rightarrow> FastStringBuilder \<Rightarrow> val \<Rightarrow> int \<Rightarrow> FastStringBuilder option"
  and stringifyArrayFast :: "nat \<Rightarrow> store \<Rightarrow> FastStringBuilder \<Rightarrow> hobject \<Rightarrow> int \<Rightarrow> FastStringBuilder option"
  and array_loop :: "nat \<Rightarrow> store \<Rightarrow> FastStringBuilder \<Rightarrow> hobject \<Rightarrow> nat \<Rightarrow> int \<Rightarrow> FastStringBuilder option"
  and stringifyObjectFast :: "nat \<Rightarrow> store \<Rightarrow> FastStringBuilder \<Rightarrow> hobject \<Rightarrow> int \<Rightarrow> FastStringBuilder option"
  and object_loop :: "nat \<Rightarrow> store \<Rightarrow> FastStringBuilder \<Rightarrow> hobject \<Rightarrow> nat \<Rightarrow> bool \<Rightarrow> int \<Rightarrow> FastStringBuilder option"
where
  "stringifyValueFast 0 st sb v depth = None"
| "stringifyValueFast (Suc n) st sb v depth =
     (case v of
        Null \<Rightarrow> Some (append_bytes sb ''null'' 4)
      | Undefined \<Rightarrow> Some (append_bytes sb ''null'' 4)
      | Boolean b \<Rightarrow> Some (if b then append_bytes sb ''true'' 4 else append_bytes sb ''false'' 5)
      | Number num \<Rightarrow>
          Some (if isnan num \<or> isinf num then append_bytes sb ''null'' 4
                else if double_eq_int num (to_int64 num)
                        \<and> double_ge_int num (- 9007199254740991)
                        \<and> double_le_int num 9007199254740991
                     then appendInt sb (to_int64 num)
                     else appendDouble sb num)
      | String s \<Rightarrow> Some (escapeStringFast sb s)
      | Ref a \<Rightarrow>
          (let obj = st a in
           if is_array obj then stringifyArrayFast n st sb obj depth
           else
             (case toJSON obj of
                Some result \<Rightarrow> stringifyValueFast n st sb result depth
              | None \<Rightarrow> stringifyObjectFast n st sb obj depth))
      | Other \<Rightarrow> Some (append_bytes sb ''null'' 4))"
| "stringifyArrayFast n st sb arr depth =
     (if depth > 10 then Some (append_bytes sb ''null'' 4)
      else
        (case array_loop n st (append_char sb (CHR ''['')) arr 0 depth of
           None \<Rightarrow> None
         | Some sb' \<Rightarrow> Some (append_char sb' (CHR '']''))))"
| "array_loop n st sb arr i depth =
     (if i < length (elems arr) then
        (case stringifyValueFast n st (if i > 0 then append_char sb (CHR '','') else sb)
                (elems arr ! i) (depth + 1) of
           None \<Rightarrow> None
         | Some sb' \<Rightarrow> array_loop n st sb' arr (i + 1) depth)
      else Some sb)"
| "stringifyObjectFast n st sb obj depth =
     (if depth > 10 then Some (append_bytes sb ''null'' 4)
      else
        (case object_loop n st (append_char sb (CHR ''{'')) obj 0 True depth of
           None \<Rightarrow> None
         | Some sb' \<Rightarrow> Some (append_char sb' (CHR ''}''))))"
| "object_loop n st sb obj i first depth =
     (if i < length (props obj) then
        (let key = fst (props obj ! i); val = snd (props obj ! i) in
         if val = Undefined then object_loop n st sb obj (i + 1) first depth
         else
           (let sb1 = (if \<not> first then append_char sb (CHR '','') else sb);
                sb2 = escapeStringFast sb1 key;
                sb3 = append_char sb2 (CHR '':'')
            in case stringifyValueFast n st sb3 val (depth + 1) of
                 None \<Rightarrow> None
               | Some sb4 \<Rightarrow> object_loop n st sb4 obj (i + 1) False depth))
      else Some sb)"
  by pat_completeness auto
termination
  by (relation "inv_image (less_than <*lex*> less_than <*lex*> less_than)
      (\<lambda>x. case x of
         Inl (Inl (n, st, sb, v, depth)) \<Rightarrow> (n, 0, 0)
       | Inl (Inr (n, st, sb, arr, depth)) \<Rightarrow> (n, 2, 0)
       | Inr (Inl (n, st, sb, arr, i, depth)) \<Rightarrow> (n, 1, length (elems arr) - i)
       | Inr (Inr (Inl (n, st, sb, obj, depth))) \<Rightarrow> (n, 2, 0)
       | Inr (Inr (Inr (n, st, sb, obj, i, first, depth))) \<Rightarrow> (n, 1, length (props obj) - i))")
    auto

subsection \<open>Entry points of the serializer\<close>

definition Stringify :: "nat \<Rightarrow> store \<Rightarrow> val \<Rightarrow> string option" where
  "Stringify fuel st v =
     (case stringifyValueFast fuel st new_builder v 0 of
        None \<Rightarrow> None
      | Some sb \<Rightarrow> Some (toString sb))"

definition FastStringify :: "nat \<Rightarrow> store \<Rightarrow> val list \<Rightarrow> (error + string) option" where
  "FastStringify fuel st info =
     (if length info < 1 then Some (Inr ''undefined'')
      else (case Stringify fuel st (info ! 0) of None \<Rightarrow> None | Some s \<Rightarrow> Some (Inr s)))"

subsection \<open>The text that the serializer appends\<close>

text \<open>
  The bytes that each function of the serializer commits to the builder, as plain
  strings. They follow the functions above case by case, without the buffer; the
  lemmas \<open>stringifyValueFast_text\<close> and \<open>Stringify_text\<close> below prove that the
  serializer commits exactly these bytes. The fuel is that of the serializer.
\<close>

definition escape_byte :: "char \<Rightarrow> string" where
  "escape_byte c =
     (if (of_char c :: nat) < 0x20 \<or> c = CHR 0x22 \<or> c = CHR 0x5C
      then (case ESCAPE_TABLE c of Some e \<Rightarrow> e | None \<Rightarrow> snprintf_u04x c)
      else [c])"

definition string_text :: "string \<Rightarrow> string" where
  "string_text s = CHR 0x22 # concat (map escape_byte s) @ [CHR 0x22]"

definition safe_integer :: "double \<Rightarrow> bool" where
  "safe_integer num =
     (double_eq_int num (to_int64 num)
      \<and> double_ge_int num (- 9007199254740991)
      \<and> double_le_int num 9007199254740991)"

definition number_text :: "double \<Rightarrow> string" where
  "number_text num =
     (if isnan num \<or> isinf num then ''null''
      else if safe_integer num then snprintf_ld (to_int64 num)
      else snprintf_g15 num)"

function value_text :: "nat \<Rightarrow> store \<Rightarrow> val \<Rightarrow> int \<Rightarrow> string option"
  and array_text :: "nat \<Rightarrow> store \<Rightarrow> val list \<Rightarrow> int \<Rightarrow> string option"
  and elems_text :: "nat \<Rightarrow> store \<Rightarrow> val list \<Rightarrow> bool \<Rightarrow> int \<Rightarrow> string option"
  and object_text :: "nat \<Rightarrow> store \<Rightarrow> (string \<times> val) list \<Rightarrow> int \<Rightarrow> string option"
  and props_text :: "nat \<Rightarrow> store \<Rightarrow> (string \<times> val) list \<Rightarrow> bool \<Rightarrow> int \<Rightarrow> string option"
where
  "value_text 0 st v depth = None"
| "value_text (Suc n) st v depth =
     (case v of
        Null \<Rightarrow> Some ''null''
      | Undefined \<Rightarrow> Some ''null''
      | Boolean b \<Rightarrow> Some (if b then ''true'' else ''false'')
      | Number num \<Rightarrow> Some (number_text num)
      | String s \<Rightarrow> Some (string_text s)
      | Ref a \<Rightarrow>
          (if is_array (st a) then array_text n st (elems (st a)) depth
           else
             (case toJSON (st a) of
                Some result \<Rightarrow> value_text n st result depth
              | None \<Rightarrow> object_text n st (props (st a)) depth))
      | Other \<Rightarrow> Some ''null'')"
| "array_text n st xs depth =
     (if depth > 10 then Some ''null''
      else
        (case elems_text n st xs True depth of
           None \<Rightarrow> None
         | Some t \<Rightarrow> Some (''['' @ t @ '']'')))"
| "elems_text n st [] first depth = Some []"
| "elems_text n st (x # xs) first depth =
     (case value_text n st x (depth + 1) of
        None \<Rightarrow> None
      | Some t \<Rightarrow>
          (case elems_text n st xs False depth of
             None \<Rightarrow> None
           | Some ts \<Rightarrow> Some ((if first then [] else '','') @ t @ ts)))"
| "object_text n st ps depth =
     (if depth > 10 then Some ''null''
      else
        (case props_text n st ps True depth of
           None \<Rightarrow> None
         | Some t \<Rightarrow> Some (''{'' @ t @ ''}'')))"
| "props_text n st [] first depth = Some []"
| "props_text n st (p # ps) first depth =
     (if snd p = Undefined then props_text n st ps first depth
      else
        (case value_text n st (snd p) (depth + 1) of
           None \<Rightarrow> None
         | Some t \<Rightarrow>
             (case props_text n st ps False depth of
                None \<Rightarrow> None
              | Some ts \<Rightarrow>
                  Some ((if first then [] else '','') @ string_text (fst p) @ '':'' @ t @ ts))))"
  by pat_completeness auto
termination
  by (relation "inv_image (less_than <*lex*> less_than <*lex*> less_than)
      (\<lambda>x. case x of
         Inl (Inl (n, st, v, depth)) \<Rightarrow> (n, 0, 0)
       | Inl (Inr (n, st, xs, depth)) \<Rightarrow> (n, 2, length xs)
       | Inr (Inl (n, st, xs, first, depth)) \<Rightarrow> (n, 1, length xs)
       | Inr (Inr (Inl (n, st, ps, depth))) \<Rightarrow> (n, 2, length ps)
       | Inr (Inr (Inr (n, st, ps, first, depth))) \<Rightarrow> (n, 1, length ps))")
    auto

text \<open>A run of the serializer from \<open>sb\<close> and the text it is to append.\<close>

definition refines :: "FastStringBuilder \<Rightarrow> FastStringBuilder option \<Rightarrow> string option \<Rightarrow> bool" where
  "refines sb r t =
     (case r of
        None \<Rightarrow> t = None
      | Some sb' \<Rightarrow>
          wf_builder sb' \<and> (case t of None \<Rightarrow> False | Some out \<Rightarrow> toString sb' = toString sb @ out))"

subsection \<open>JSON number tokens\<close>

text \<open>
  The number grammar of JSON (RFC 8259): an optional minus sign; an integer part that is
  \<open>0\<close> or starts with a digit from 1 to 9; an optional fraction, a point and at least
  one digit; an optional exponent, \<open>e\<close> or \<open>E\<close>, an optional sign and at least one
  digit.
\<close>

definition is_digit :: "char \<Rightarrow> bool" where
  "is_digit c = ((of_char CHR ''0'' :: nat) \<le> of_char c \<and> (of_char c :: nat) \<le> of_char CHR ''9'')"

definition json_int :: "string \<Rightarrow> bool" where
  "json_int ip = (ip \<noteq> [] \<and> list_all is_digit ip \<and> (length ip = 1 \<or> hd ip \<noteq> CHR ''0''))"

definition json_exp :: "string \<Rightarrow> bool" where
  "json_exp r =
     (case r of
        [] \<Rightarrow> True
      | c # r' \<Rightarrow>
          (c = CHR ''e'' \<or> c = CHR ''E'') \<and>
          (let ds = (case r' of
                       [] \<Rightarrow> []
                     | x # r'' \<Rightarrow> if x = CHR ''+'' \<or> x = CHR ''-'' then r'' else r')
           in ds \<noteq> [] \<and> list_all is_digit ds))"

definition json_frac_exp :: "string \<Rightarrow> bool" where
  "json_frac_exp r =
     (case r of
        [] \<Rightarrow> True
      | c # r2 \<Rightarrow>
          if c = CHR ''.''
          then takeWhile is_digit r2 \<noteq> [] \<and> json_exp (dropWhile is_digit r2)
          else json_exp r)"

definition is_number :: "string \<Rightarrow> bool" where
  "is_number s =
     (let s1 = (case s of [] \<Rightarrow> [] | c # r \<Rightarrow> if c = CHR ''-'' then r else s)
      in json_int (takeWhile is_digit s1) \<and> json_frac_exp (dropWhile is_digit s1))"

text \<open>
  The value of a finite double is the integer \<open>k\<close>, and \<open>k\<close> lies in the safe-integer
  range \<open>[-(2^53 - 1), 2^53 - 1]\<close>.
\<close>

definition safe_integer_value :: "double \<Rightarrow> int \<Rightarrow> bool" where
  "safe_integer_value d k =
     (snum d = k * int (den d) \<and> - 9007199254740991 \<le> k \<and> k \<le> 9007199254740991)"

text \<open>The shapes of the fraction and of the exponent that the formatting produces.\<close>

definition frac_shape :: "string \<Rightarrow> bool" where
  "frac_shape fp = (fp = [] \<or> (\<exists>fs. fp = CHR ''.'' # fs \<and> fs \<noteq> [] \<and> list_all is_digit fs))"

definition exp_shape :: "string \<Rightarrow> bool" where
  "exp_shape ep = (ep = [] \<or> (\<exists>sg ds. ep = CHR ''e'' # sg # ds \<and> (sg = CHR ''+'' \<or> sg = CHR ''-'')
      \<and> ds \<noteq> [] \<and> list_all is_digit ds))"

subsection \<open>Example stores\<close>

text \<open>A store of empty plain objects.\<close>

definition empty_store :: store where
  "empty_store = (\<lambda>a. \<lparr>is_array = False, elems = [], props = [], toJSON = None\<rparr>)"

text \<open>A store in which the \<open>toJSON\<close> member of every object returns the object itself.\<close>

definition self_toJSON_store :: store where
  "self_toJSON_store = (\<lambda>a. \<lparr>is_array = False, elems = [], props = [], toJSON = Some (Ref a)\<rparr>)"

text \<open>
  A store with an array at address 1 that carries a callable \<open>toJSON\<close> member, and
  plain objects elsewhere.
\<close>

definition array_with_toJSON_store :: store where
  "array_with_toJSON_store = (\<lambda>a.
     if a = 1 then \<lparr>is_array = True, elems = [Boolean True, Null, String ''a'', Ref 2], props = [],
                     toJSON = Some (String ''X'')\<rparr>
     else \<lparr>is_array = False, elems = [], props = [(''k'', Undefined), (''t'', Other)], toJSON = None\<rparr>)"

subsection \<open>JSON documents\<close>

text \<open>
  The grammar of JSON texts (RFC 8259) without insignificant whitespace, on bytes. The
  characters of a string are unescaped bytes from \<open>0x20\<close> on other than the quotation
  mark and the backslash, two-character escapes, and \<open>\\u\<close> followed by four hex digits.
  Bytes from \<open>0x80\<close> on pass as unescaped: whether they form valid UTF-8 is a matter of
  the input string, which the serializer copies.
\<close>

inductive json_chars :: "string \<Rightarrow> bool" where
  chars_Nil: "json_chars []"
| chars_plain:
    "(0x20 :: nat) \<le> of_char c \<Longrightarrow> c \<noteq> CHR 0x22 \<Longrightarrow> c \<noteq> CHR 0x5C \<Longrightarrow> json_chars cs
     \<Longrightarrow> json_chars (c # cs)"
| chars_escape:
    "e \<in> set [CHR 0x22, CHR 0x5C, CHR ''/'', CHR ''b'', CHR ''f'', CHR ''n'', CHR ''r'', CHR ''t'']
     \<Longrightarrow> json_chars cs \<Longrightarrow> json_chars (CHR 0x5C # e # cs)"
| chars_unicode:
    "is_hex h1 \<Longrightarrow> is_hex h2 \<Longrightarrow> is_hex h3 \<Longrightarrow> is_hex h4 \<Longrightarrow> json_chars cs
     \<Longrightarrow> json_chars (CHR 0x5C # CHR ''u'' # h1 # h2 # h3 # h4 # cs)"

inductive json_value :: "string \<Rightarrow> bool"
  and json_elements :: "string \<Rightarrow> bool"
  and json_members :: "string \<Rightarrow> bool"
where
  value_null: "json_value ''null''"
| value_true: "json_value ''true''"
| value_false: "json_value ''false''"
| value_number: "is_number s \<Longrightarrow> json_value s"
| value_string: "json_chars cs \<Longrightarrow> json_value (CHR 0x22 # cs @ [CHR 0x22])"
| value_empty_array: "json_value ''[]''"
| value_array: "json_elements es \<Longrightarrow> json_value (''['' @ es @ '']'')"
| value_empty_object: "json_value ''{}''"
| value_object: "json_members ms \<Longrightarrow> json_value (''{'' @ ms @ ''}'')"
| elements_one: "json_value v \<Longrightarrow> json_elements v"
| elements_more: "json_value v \<Longrightarrow> json_elements es \<Longrightarrow> json_elements (v @ '','' @ es)"
| members_one:
    "json_chars k \<Longrightarrow> json_value v \<Longrightarrow> json_members (CHR 0x22 # k @ [CHR 0x22] @ '':'' @ v)"
| members_more:
    "json_chars k \<Longrightarrow> json_value v \<Longrightarrow> json_members ms
     \<Longrightarrow> json_members (CHR 0x22 # k @ [CHR 0x22] @ '':'' @ v @ '','' @ ms)"

text \<open>A store in which the array at every address holds itself as its only element.\<close>

definition self_array_store :: store where
  "self_array_store = (\<lambda>a. \<lparr>is_array = True, elems = [Ref a], props = [], toJSON = None\<rparr>)"

section \<open>Properties of the percent decoder\<close>

declare decode_loop.simps [simp del]

lemma percent_decode_hex:
  "is_hex h \<Longrightarrow> is_hex l \<Longrightarrow>
   percent_decode (CHR ''%'' # h # l # rest) = hex_byte h l # percent_decode rest"
  by (subst percent_decode.simps(2)) (simp del: percent_decode.simps)

lemma percent_decode_nohex:
  "\<not> (is_hex h \<and> is_hex l) \<Longrightarrow>
   percent_decode (CHR ''%'' # h # l # rest) = CHR ''%'' # percent_decode (h # l # rest)"
  by (subst percent_decode.simps(2)) (auto simp del: percent_decode.simps)

lemma percent_decode_short:
  "length rest < 2 \<Longrightarrow> percent_decode (CHR ''%'' # rest) = CHR ''%'' # percent_decode rest"
  by (subst percent_decode.simps(2); cases rest; cases "tl rest")
    (auto simp del: percent_decode.simps)

lemma percent_decode_plus:
  "percent_decode (CHR ''+'' # rest) = CHR '' '' # percent_decode rest"
  by (subst percent_decode.simps(2)) (simp del: percent_decode.simps)

lemma percent_decode_other:
  "c \<noteq> CHR ''%'' \<Longrightarrow> c \<noteq> CHR ''+'' \<Longrightarrow> percent_decode (c # rest) = c # percent_decode rest"
  by (subst percent_decode.simps(2)) (simp del: percent_decode.simps)

declare percent_decode.simps(2) [simp del]

lemma decode_loop_eq:
  "i \<le> length data \<Longrightarrow> decode_loop data i result = result @ percent_decode (drop i data)"
proof (induction data i result rule: decode_loop.induct)
  case (1 data i result)
  show ?case
  proof (cases "i < length data")
    case False
    then show ?thesis by (subst decode_loop.simps) simp
  next
    case True
    then have d: "drop i data = data ! i # drop (Suc i) data"
      by (simp add: Cons_nth_drop_Suc)
    show ?thesis
    proof (cases "data ! i = CHR ''%'' \<and> i + 2 < length data")
      case pct: True
      then have d1: "drop (Suc i) data = data ! Suc i # data ! Suc (Suc i) # drop (Suc (Suc (Suc i))) data"
        by (simp add: Cons_nth_drop_Suc)
      show ?thesis
      proof (cases "HEX_TABLE (data ! (i + 1)) \<ge> 0 \<and> HEX_TABLE (data ! (i + 2)) \<ge> 0")
        case hex: True
        from True pct hex have "decode_loop data (i + 2 + 1)
              (result @ [char_of (or (push_bit 4 (HEX_TABLE (data ! (i + 1)))) (HEX_TABLE (data ! (i + 2))))])
            = (result @ [char_of (or (push_bit 4 (HEX_TABLE (data ! (i + 1)))) (HEX_TABLE (data ! (i + 2))))])
              @ percent_decode (drop (i + 2 + 1) data)"
          by (intro "1.IH"(1)) auto
        with True pct hex show ?thesis
          by (subst decode_loop.simps)
            (simp add: d d1 percent_decode_hex is_hex_def hex_byte_def Let_def)
      next
        case nohex: False
        from True pct nohex have "decode_loop data (i + 1) (result @ [data ! i])
            = (result @ [data ! i]) @ percent_decode (drop (i + 1) data)"
          by (intro "1.IH"(2)) auto
        moreover from nohex have "\<not> (is_hex (data ! Suc i) \<and> is_hex (data ! Suc (Suc i)))"
          by (simp add: is_hex_def)
        then have "percent_decode (drop i data) = CHR ''%'' # percent_decode (drop (Suc i) data)"
          using pct by (simp add: d d1 percent_decode_nohex)
        ultimately show ?thesis using True pct nohex
          by (subst decode_loop.simps) (auto simp add: Let_def)
      qed
    next
      case nopct: False
      show ?thesis
      proof (cases "data ! i = CHR ''+''")
        case plus: True
        from True nopct plus have "decode_loop data (i + 1) (result @ [CHR '' ''])
            = (result @ [CHR '' '']) @ percent_decode (drop (i + 1) data)"
          by (intro "1.IH"(3)) auto
        with True nopct plus show ?thesis
          by (subst decode_loop.simps) (simp add: d percent_decode_plus)
      next
        case other: False
        from True nopct other have ih: "decode_loop data (i + 1) (result @ [data ! i])
            = (result @ [data ! i]) @ percent_decode (drop (i + 1) data)"
          by (intro "1.IH"(4)) auto
        have "percent_decode (drop i data) = data ! i # percent_decode (drop (Suc i) data)"
        proof (cases "data ! i = CHR ''%''")
          case p: True
          with nopct have "length (drop (Suc i) data) < 2" by simp
          then show ?thesis using p by (simp add: d percent_decode_short)
        next
          case False
          with other show ?thesis by (simp add: d percent_decode_other)
        qed
        with True nopct other ih show ?thesis
          by (subst decode_loop.simps) (auto simp add: Let_def)
      qed
    qed
  qed
qed

lemma DecodeURIComponent_eq: "DecodeURIComponent s = percent_decode s"
  using decode_loop_eq [of 0 s "[]"] by (simp add: DecodeURIComponent_def)

lemma length_percent_decode: "length (percent_decode s) \<le> length s"
proof (induction s rule: length_induct)
  case (1 s)
  show ?case
  proof (cases s)
    case Nil
    then show ?thesis by simp
  next
    case (Cons c rest)
    from 1 Cons have ih: "length (percent_decode rest) \<le> length rest" by simp
    show ?thesis
    proof (cases "c = CHR ''%''")
      case False
      with ih Cons show ?thesis
        by (cases "c = CHR ''+''") (simp_all add: percent_decode_plus percent_decode_other)
    next
      case True
      show ?thesis
      proof (cases "\<exists>h l r. rest = h # l # r \<and> is_hex h \<and> is_hex l")
        case True
        then obtain h l r where r: "rest = h # l # r" "is_hex h" "is_hex l" by blast
        with 1 Cons have "length (percent_decode r) \<le> length r" by simp
        with r Cons \<open>c = CHR ''%''\<close> show ?thesis by (simp add: percent_decode_hex)
      next
        case False
        have "percent_decode (CHR ''%'' # rest) = CHR ''%'' # percent_decode rest"
        proof (cases "length rest < 2")
          case True
          then show ?thesis by (rule percent_decode_short)
        next
          case long: False
          then obtain h l r where r: "rest = h # l # r"
            by (cases rest; cases "tl rest") auto
          with False show ?thesis by (simp add: percent_decode_nohex)
        qed
        with ih Cons True show ?thesis by simp
      qed
    qed
  qed
qed

section \<open>Properties of the percent encoder\<close>

lemma HEX_TABLE_hex_digit: "n < 16 \<Longrightarrow> HEX_TABLE (hex_digit u n) = int n"
proof -
  assume "n < 16"
  then have n: "n \<in> set [0..<16]" by simp
  have t: "\<forall>i \<in> set [0..<16]. HEX_TABLE (hex_digit True i) = int i"
    by code_simp
  have f: "\<forall>i \<in> set [0..<16]. HEX_TABLE (hex_digit False i) = int i"
    by code_simp
  show ?thesis
  proof (cases u)
    case True
    from t n have "HEX_TABLE (hex_digit True n) = int n" by (rule bspec)
    with True show ?thesis by simp
  next
    case False
    from f n have "HEX_TABLE (hex_digit False n) = int n" by (rule bspec)
    with False show ?thesis by simp
  qed
qed

lemma or_nibbles: "or (push_bit 4 (int (n div 16))) (int (n mod 16)) = int n"
proof -
  have "or (push_bit 4 (drop_bit 4 (int n))) (take_bit 4 (int n))
      = push_bit 4 (drop_bit 4 (int n)) + take_bit 4 (int n)"
    by (rule disjunctive_add [symmetric]) (auto simp add: bit_push_bit_iff bit_take_bit_iff)
  also have "\<dots> = int n" by (rule bits_ident)
  finally show ?thesis
    by (simp add: drop_bit_eq_div take_bit_eq_mod zdiv_int zmod_int)
qed

lemma hex_byte_hex_digit:
  "hex_byte (hex_digit u (of_char c div 16)) (hex_digit u (of_char c mod 16)) = c"
proof -
  have "(of_char c :: nat) < 256" by simp
  then have "(of_char c :: nat) div 16 < 16" by arith
  then show ?thesis
    by (simp add: hex_byte_def HEX_TABLE_hex_digit or_nibbles)
qed

lemma is_alnum_plain: "is_alnum c \<Longrightarrow> c \<noteq> CHR ''%'' \<and> c \<noteq> CHR ''+''"
  by (auto simp add: is_alnum_def)

lemma percent_decode_encode: "percent_decode (percent_encode u b) = b"
proof (induction b)
  case Nil
  show ?case by simp
next
  case (Cons c b)
  show ?case
  proof (cases "is_alnum c")
    case True
    with Cons is_alnum_plain [OF True] show ?thesis
      by (simp add: percent_decode_other)
  next
    case False
    have "(of_char c :: nat) < 256" by simp
    then have "(of_char c :: nat) div 16 < 16" by arith
    then have "is_hex (hex_digit u (of_char c div 16))" "is_hex (hex_digit u (of_char c mod 16))"
      by (simp_all add: is_hex_def HEX_TABLE_hex_digit)
    with False Cons show ?thesis
      by (simp add: percent_decode_hex hex_byte_hex_digit)
  qed
qed

section \<open>Properties of the query splitter\<close>


declare query_loop.simps [simp del]

lemma memchr_takeWhile:
  "p + n \<le> length data \<Longrightarrow>
   memchr data p c n =
     (if length (takeWhile (\<lambda>x. x \<noteq> c) (substr data p n)) < n
      then Some (p + length (takeWhile (\<lambda>x. x \<noteq> c) (substr data p n))) else None)"
proof (induction data p c n rule: memchr.induct)
  case (1 data p c)
  show ?case by (simp add: substr_def)
next
  case (2 data p c n)
  from "2.prems" have "p < length data" by simp
  then have s: "substr data p (Suc n) = data ! p # substr data (Suc p) n"
    by (simp add: substr_def Cons_nth_drop_Suc [symmetric])
  show ?case
  proof (cases "data ! p = c")
    case True
    then show ?thesis by (simp add: s)
  next
    case False
    with "2.prems" have "memchr data (Suc p) c n =
      (if length (takeWhile (\<lambda>x. x \<noteq> c) (substr data (Suc p) n)) < n
       then Some (Suc p + length (takeWhile (\<lambda>x. x \<noteq> c) (substr data (Suc p) n))) else None)"
      by (intro "2.IH") auto
    with False show ?thesis by (simp add: s)
  qed
qed














lemma memchr_whole:
  "memchr s 0 c (length s) =
     (if length (takeWhile (\<lambda>x. x \<noteq> c) s) < length s
      then Some (length (takeWhile (\<lambda>x. x \<noteq> c) s)) else None)"
  using memchr_takeWhile [of 0 "length s" s c] by (simp add: substr_def)



lemma Parse_pathname: "pathname (Parse url) = takeWhile (\<lambda>x. x \<noteq> CHR ''?'') url"
proof -
  let ?tw = "takeWhile (\<lambda>x. x \<noteq> CHR ''?'') url"
  have t: "take (length ?tw) url = ?tw" by (rule takeWhile_eq_take [symmetric])
  show ?thesis
  proof (cases "length ?tw < length url")
    case True
    then have "Parse url = \<lparr>pathname = substr url 0 (length ?tw),
        query = query_loop url (length ?tw + 1) (length ?tw + 1 + (length url - length ?tw - 1)) Map.empty\<rparr>"
      by (simp add: Parse_def memchr_whole Let_def)
    then show ?thesis by (simp add: substr_def t)
  next
    case False
    then have "length url \<le> length ?tw" by simp
    with t have "?tw = url" by (metis take_all)
    moreover from False have "Parse url = \<lparr>pathname = url, query = Map.empty\<rparr>"
      by (simp add: Parse_def memchr_whole)
    ultimately show ?thesis by (simp only: ParseResult.select_convs)
  qed
qed









section \<open>The hex table\<close>

lemma is_hex_iff: "is_hex c = (c \<in> set ''0123456789abcdefABCDEF'')"
proof -
  let ?n = "of_char c :: nat"
  have inj: "(c = d) = (?n = of_char d)" for d
    by (auto dest: injD [OF inj_of_char])
  have "(c \<in> set ''0123456789abcdefABCDEF'') =
      ((48 \<le> ?n \<and> ?n \<le> 57) \<or> (97 \<le> ?n \<and> ?n \<le> 102) \<or> (65 \<le> ?n \<and> ?n \<le> 70))"
    by (simp add: inj) arith
  moreover have "is_hex c =
      ((48 \<le> ?n \<and> ?n \<le> 57) \<or> (97 \<le> ?n \<and> ?n \<le> 102) \<or> (65 \<le> ?n \<and> ?n \<le> 70))"
    by (auto simp add: is_hex_def HEX_TABLE_def Let_def)
  ultimately show ?thesis by simp
qed

lemma HEX_TABLE_values:
  "map HEX_TABLE ''0123456789abcdefABCDEF''
     = [0, 1, 2, 3, 4, 5, 6, 7, 8, 9, 10, 11, 12, 13, 14, 15, 10, 11, 12, 13, 14, 15]"
  by code_simp

section \<open>Properties of the string builder\<close>

lemma wf_new_builder: "wf_builder new_builder"
  by (simp add: wf_builder_def new_builder_def)

lemma toString_new_builder: "toString new_builder = []"
  by (simp add: toString_def new_builder_def)

lemma length_resize: "length (resize v n) = n"
  by (simp add: resize_def)

lemma take_resize: "k \<le> length v \<Longrightarrow> k \<le> n \<Longrightarrow> take k (resize v n) = take k v"
  by (simp add: resize_def min_def)

lemma ensureCapacity_pos: "sb_pos (ensureCapacity sb needed) = sb_pos sb"
  by (simp add: ensureCapacity_def)

lemma ensureCapacity_length:
  "length (sb_buffer (ensureCapacity sb needed)) =
     (if sb_pos sb + needed > length (sb_buffer sb) then (sb_pos sb + needed) * 2
      else length (sb_buffer sb))"
  by (simp add: ensureCapacity_def length_resize)

lemma ensureCapacity_enough:
  "sb_pos sb + needed \<le> length (sb_buffer (ensureCapacity sb needed))"
  by (simp add: ensureCapacity_length)

lemma ensureCapacity_toString:
  "wf_builder sb \<Longrightarrow> toString (ensureCapacity sb needed) = toString sb"
  by (simp add: ensureCapacity_def toString_def wf_builder_def take_resize)

lemma append_bytes_toString:
  assumes "wf_builder sb" and "len \<le> length str"
  shows "toString (append_bytes sb str len) = toString sb @ take len str"
proof -
  let ?sb = "ensureCapacity sb len"
  have p: "sb_pos ?sb = sb_pos sb" by (rule ensureCapacity_pos)
  have e: "sb_pos sb + len \<le> length (sb_buffer ?sb)" by (rule ensureCapacity_enough)
  have t: "take (sb_pos sb) (sb_buffer ?sb) = toString sb"
    using ensureCapacity_toString [OF assms(1), of len] by (simp add: toString_def p)
  have l: "length (take (sb_pos sb) (sb_buffer ?sb)) = sb_pos sb" using e by simp
  have "toString (append_bytes sb str len)
      = take (sb_pos sb + len) (take (sb_pos sb) (sb_buffer ?sb) @ take len str
          @ drop (sb_pos sb + len) (sb_buffer ?sb))"
    by (simp add: append_bytes_def toString_def Let_def p)
  also have "\<dots> = take (sb_pos sb) (sb_buffer ?sb) @ take len str"
    using l assms(2) by (simp add: min_def)
  finally show ?thesis by (simp add: t)
qed

lemma append_bytes_wf: "len \<le> length str \<Longrightarrow> wf_builder (append_bytes sb str len)"
  using ensureCapacity_enough [of sb len]
  by (simp add: append_bytes_def wf_builder_def Let_def ensureCapacity_pos min_def) arith

lemma append_char_toString:
  assumes "wf_builder sb"
  shows "toString (append_char sb c) = toString sb @ [c]"
proof -
  let ?sb = "ensureCapacity sb 1"
  have p: "sb_pos ?sb = sb_pos sb" by (rule ensureCapacity_pos)
  have e: "sb_pos sb + 1 \<le> length (sb_buffer ?sb)" by (rule ensureCapacity_enough)
  have t: "take (sb_pos sb) (sb_buffer ?sb) = toString sb"
    using ensureCapacity_toString [OF assms, of 1] p by (simp add: toString_def)
  have "toString (append_char sb c) = take (Suc (sb_pos sb)) ((sb_buffer ?sb)[sb_pos sb := c])"
    using p by (simp add: append_char_def toString_def Let_def)
  also have "\<dots> = take (sb_pos sb) (sb_buffer ?sb) @ [c]"
    using e by (simp add: take_Suc_conv_app_nth)
  finally show ?thesis using t by simp
qed

lemma append_char_wf: "wf_builder (append_char sb c)"
  using ensureCapacity_enough [of sb 1]
  by (simp add: append_char_def wf_builder_def Let_def ensureCapacity_pos)

section \<open>The serializer commits the text\<close>

declare escape_loop.simps [simp del]

lemma length_snprintf_u04x: "length (snprintf_u04x c) = 6"
  by (simp add: snprintf_u04x_def Let_def)

lemma append_cstr_toString:
  "wf_builder sb \<Longrightarrow> toString (append_cstr sb s) = toString sb @ s"
  by (simp add: append_cstr_def append_bytes_toString)

lemma append_cstr_wf: "wf_builder (append_cstr sb s)"
  by (simp add: append_cstr_def append_bytes_wf)

lemma append_escape:
  assumes "wf_builder sb"
    and "(of_char c :: nat) < 0x20 \<or> c = CHR 0x22 \<or> c = CHR 0x5C"
  shows "wf_builder (case ESCAPE_TABLE c of Some e \<Rightarrow> append_cstr sb e
                       | None \<Rightarrow> append_bytes sb (snprintf_u04x c) 6)"
    and "toString (case ESCAPE_TABLE c of Some e \<Rightarrow> append_cstr sb e
                       | None \<Rightarrow> append_bytes sb (snprintf_u04x c) 6) = toString sb @ escape_byte c"
  using assms
  by (auto simp add: escape_byte_def append_cstr_wf append_bytes_wf append_cstr_toString
      append_bytes_toString length_snprintf_u04x split: option.splits)

lemma escape_loop_text:
  assumes "wf_builder sb" and "lastPos \<le> i" and "i \<le> length data"
  shows "wf_builder (fst (escape_loop data i lastPos sb)) \<and>
         snd (escape_loop data i lastPos sb) \<le> length data \<and>
         toString (fst (escape_loop data i lastPos sb)) @ drop (snd (escape_loop data i lastPos sb)) data
           = toString sb @ take (i - lastPos) (drop lastPos data) @ concat (map escape_byte (drop i data))"
  using assms
proof (induction data i lastPos sb rule: escape_loop.induct)
  case (1 data i lastPos sb)
  show ?case
  proof (cases "i < length data")
    case False
    with "1.prems" have "i = length data" by simp
    with "1.prems" show ?thesis by (subst (1 2 3 4) escape_loop.simps) simp
  next
    case True
    then have d: "drop i data = data ! i # drop (Suc i) data"
      by (simp add: Cons_nth_drop_Suc)
    let ?c = "data ! i"
    show ?thesis
    proof (cases "(of_char ?c :: nat) < 0x20 \<or> ?c = CHR 0x22 \<or> ?c = CHR 0x5C")
      case esc: True
      let ?sb1 = "if i > lastPos then append_bytes sb (drop lastPos data) (i - lastPos) else sb"
      let ?sb2 = "case ESCAPE_TABLE ?c of Some e \<Rightarrow> append_cstr ?sb1 e
                  | None \<Rightarrow> append_bytes ?sb1 (snprintf_u04x ?c) 6"
      have le: "i - lastPos \<le> length (drop lastPos data)" using True by simp
      have wf1: "wf_builder ?sb1" using "1.prems"(1) le by (simp add: append_bytes_wf)
      have t1: "toString ?sb1 = toString sb @ take (i - lastPos) (drop lastPos data)"
        using "1.prems"(1) le by (simp add: append_bytes_toString)
      have wf2: "wf_builder ?sb2" using wf1 esc by (rule append_escape(1))
      have t2: "toString ?sb2 = toString ?sb1 @ escape_byte ?c" using wf1 esc by (rule append_escape(2))
      have u: "escape_loop data i lastPos sb = escape_loop data (i + 1) (i + 1) ?sb2"
        using True esc by (subst escape_loop.simps) (simp add: Let_def)
      have ih: "wf_builder (fst (escape_loop data (i + 1) (i + 1) ?sb2)) \<and>
         snd (escape_loop data (i + 1) (i + 1) ?sb2) \<le> length data \<and>
         toString (fst (escape_loop data (i + 1) (i + 1) ?sb2))
           @ drop (snd (escape_loop data (i + 1) (i + 1) ?sb2)) data
           = toString ?sb2 @ take (i + 1 - (i + 1)) (drop (i + 1) data)
               @ concat (map escape_byte (drop (i + 1) data))"
        using True esc wf2 by (intro "1.IH"(1) [OF True refl _ refl refl]) simp_all
      show ?thesis unfolding u using ih by (simp add: t2 t1 d)
    next
      case plain: False
      have u: "escape_loop data i lastPos sb = escape_loop data (i + 1) lastPos sb"
        using True plain by (subst escape_loop.simps) (simp add: Let_def)
      have ih: "wf_builder (fst (escape_loop data (i + 1) lastPos sb)) \<and>
         snd (escape_loop data (i + 1) lastPos sb) \<le> length data \<and>
         toString (fst (escape_loop data (i + 1) lastPos sb))
           @ drop (snd (escape_loop data (i + 1) lastPos sb)) data
           = toString sb @ take (i + 1 - lastPos) (drop lastPos data)
               @ concat (map escape_byte (drop (i + 1) data))"
        using True plain "1.prems" by (intro "1.IH"(2) [OF True refl]) simp_all
      have e: "escape_byte ?c = [?c]" using plain by (simp add: escape_byte_def)
      have "take (i + 1 - lastPos) (drop lastPos data)
          = take (i - lastPos) (drop lastPos data) @ [?c]"
      proof -
        from "1.prems" have "i + 1 - lastPos = Suc (i - lastPos)" by simp
        moreover from True "1.prems" have "i - lastPos < length (drop lastPos data)" by simp
        moreover from "1.prems" have "drop lastPos data ! (i - lastPos) = ?c" using True by simp
        ultimately show ?thesis by (simp add: take_Suc_conv_app_nth)
      qed
      with ih show ?thesis unfolding u by (simp add: d e)
    qed
  qed
qed

lemma escapeStringFast_text:
  assumes "wf_builder sb"
  shows "wf_builder (escapeStringFast sb s)"
    and "toString (escapeStringFast sb s) = toString sb @ string_text s"
proof -
  let ?sb0 = "append_char sb (CHR 0x22)"
  let ?r = "escape_loop s 0 0 ?sb0"
  have wf0: "wf_builder ?sb0" by (rule append_char_wf)
  have t0: "toString ?sb0 = toString sb @ [CHR 0x22]" using assms by (rule append_char_toString)
  from escape_loop_text [OF wf0, of 0 0 s]
  have r: "wf_builder (fst ?r)" "snd ?r \<le> length s"
    "toString (fst ?r) @ drop (snd ?r) s = toString ?sb0 @ concat (map escape_byte s)"
    by simp_all
  let ?sb2 = "if snd ?r < length s then append_bytes (fst ?r) (drop (snd ?r) s) (length s - snd ?r) else fst ?r"
  have wf2: "wf_builder ?sb2" using r(1) by (simp add: append_bytes_wf)
  have t2: "toString ?sb2 = toString (fst ?r) @ drop (snd ?r) s"
    using r(1) r(2) by (simp add: append_bytes_toString)
  have e: "escapeStringFast sb s = append_char ?sb2 (CHR 0x22)"
    by (simp add: escapeStringFast_def Let_def case_prod_unfold)
  show "wf_builder (escapeStringFast sb s)" unfolding e by (rule append_char_wf)
  show "toString (escapeStringFast sb s) = toString sb @ string_text s"
    unfolding e using wf2 by (simp add: append_char_toString t2 r(3) t0 string_text_def)
qed

lemma appendInt_text:
  "wf_builder sb \<Longrightarrow> toString (appendInt sb v) = toString sb @ snprintf_ld v"
  by (simp add: appendInt_def Let_def append_bytes_toString)

lemma appendInt_wf: "wf_builder (appendInt sb v)"
  by (simp add: appendInt_def Let_def append_bytes_wf)

lemma appendDouble_text:
  "wf_builder sb \<Longrightarrow> toString (appendDouble sb v) = toString sb @ snprintf_g15 v"
  by (simp add: appendDouble_def Let_def append_bytes_toString)

lemma appendDouble_wf: "wf_builder (appendDouble sb v)"
  by (simp add: appendDouble_def Let_def append_bytes_wf)

declare stringifyValueFast.simps [simp del] stringifyArrayFast.simps [simp del]
  array_loop.simps [simp del] stringifyObjectFast.simps [simp del] object_loop.simps [simp del]

lemma refines_SomeI:
  "wf_builder sb' \<Longrightarrow> toString sb' = toString sb @ out \<Longrightarrow> refines sb (Some sb') (Some out)"
  by (simp add: refines_def)

lemma refines_null:
  "wf_builder sb \<Longrightarrow> refines sb (Some (append_bytes sb ''null'' 4)) (Some ''null'')"
  by (rule refines_SomeI) (simp_all add: append_bytes_wf append_bytes_toString)

lemma array_loop_refines:
  assumes H: "\<And>sb v depth. wf_builder sb \<Longrightarrow>
      refines sb (stringifyValueFast n st sb v depth) (value_text n st v depth)"
  shows "wf_builder sb \<Longrightarrow> i \<le> length (elems arr) \<Longrightarrow>
    refines sb (array_loop n st sb arr i depth) (elems_text n st (drop i (elems arr)) (i = 0) depth)"
proof (induction "length (elems arr) - i" arbitrary: i sb)
  case 0
  then have "i = length (elems arr)" by simp
  with "0.prems" show ?case
    by (subst array_loop.simps) (simp add: refines_def)
next
  case (Suc k)
  then have lt: "i < length (elems arr)" by simp
  let ?x = "elems arr ! i"
  let ?sb0 = "if i > 0 then append_char sb (CHR '','') else sb"
  have d: "drop i (elems arr) = ?x # drop (Suc i) (elems arr)"
    using lt by (simp add: Cons_nth_drop_Suc)
  have wf0: "wf_builder ?sb0" using Suc.prems(1) by (simp add: append_char_wf)
  have t0: "toString ?sb0 = toString sb @ (if i = 0 then [] else '','')"
    using Suc.prems(1) by (simp add: append_char_toString)
  have u: "array_loop n st sb arr i depth =
      (case stringifyValueFast n st ?sb0 ?x (depth + 1) of
         None \<Rightarrow> None
       | Some sb' \<Rightarrow> array_loop n st sb' arr (i + 1) depth)"
    using lt by (subst array_loop.simps) simp
  from H [OF wf0, of ?x "depth + 1"]
  have r: "refines ?sb0 (stringifyValueFast n st ?sb0 ?x (depth + 1)) (value_text n st ?x (depth + 1))" .
  show ?case
  proof (cases "stringifyValueFast n st ?sb0 ?x (depth + 1)")
    case None
    with r have "value_text n st ?x (depth + 1) = None" by (simp add: refines_def)
    with None show ?thesis unfolding u d by (simp add: refines_def)
  next
    case (Some sb')
    with r obtain t where t: "wf_builder sb'" "value_text n st ?x (depth + 1) = Some t"
      "toString sb' = toString ?sb0 @ t"
      by (auto simp add: refines_def split: option.splits)
    from Suc.hyps(2) lt have k: "k = length (elems arr) - (i + 1)" by simp
    from Suc.hyps(1) [OF k t(1)] lt
    have ih: "refines sb' (array_loop n st sb' arr (i + 1) depth)
        (elems_text n st (drop (i + 1) (elems arr)) False depth)"
      by simp
    show ?thesis
    proof (cases "array_loop n st sb' arr (i + 1) depth")
      case None
      with ih have "elems_text n st (drop (Suc i) (elems arr)) False depth = None"
        by (simp add: refines_def)
      with None Some t show ?thesis unfolding u d by (simp add: refines_def)
    next
      case (Some sb'')
      with ih obtain ts where ts: "wf_builder sb''"
        "elems_text n st (drop (Suc i) (elems arr)) False depth = Some ts"
        "toString sb'' = toString sb' @ ts"
        by (auto simp add: refines_def split: option.splits)
      with Some \<open>stringifyValueFast n st ?sb0 ?x (depth + 1) = Some sb'\<close> t t0
      show ?thesis unfolding u d by (simp add: refines_def)
    qed
  qed
qed

lemma object_loop_refines:
  assumes H: "\<And>sb v depth. wf_builder sb \<Longrightarrow>
      refines sb (stringifyValueFast n st sb v depth) (value_text n st v depth)"
  shows "wf_builder sb \<Longrightarrow> i \<le> length (props obj) \<Longrightarrow>
    refines sb (object_loop n st sb obj i first depth) (props_text n st (drop i (props obj)) first depth)"
proof (induction "length (props obj) - i" arbitrary: i sb first)
  case 0
  then have "i = length (props obj)" by simp
  with "0.prems" show ?case
    by (subst object_loop.simps) (simp add: refines_def)
next
  case (Suc k)
  then have lt: "i < length (props obj)" by simp
  let ?p = "props obj ! i"
  have d: "drop i (props obj) = ?p # drop (Suc i) (props obj)"
    using lt by (simp add: Cons_nth_drop_Suc)
  from Suc.hyps(2) lt have k: "k = length (props obj) - (i + 1)" by simp
  show ?case
  proof (cases "snd ?p = Undefined")
    case True
    have u: "object_loop n st sb obj i first depth = object_loop n st sb obj (i + 1) first depth"
      using lt True by (subst object_loop.simps) (simp add: Let_def)
    from Suc.hyps(1) [OF k Suc.prems(1), of first] lt True show ?thesis
      unfolding u d by simp
  next
    case False
    let ?sb1 = "if \<not> first then append_char sb (CHR '','') else sb"
    let ?sb2 = "escapeStringFast ?sb1 (fst ?p)"
    let ?sb3 = "append_char ?sb2 (CHR '':'')"
    have wf1: "wf_builder ?sb1" using Suc.prems(1) by (simp add: append_char_wf)
    have t1: "toString ?sb1 = toString sb @ (if first then [] else '','')"
      using Suc.prems(1) by (simp add: append_char_toString)
    have wf2: "wf_builder ?sb2" using wf1 by (rule escapeStringFast_text(1))
    have t2: "toString ?sb2 = toString ?sb1 @ string_text (fst ?p)"
      using wf1 by (rule escapeStringFast_text(2))
    have wf3: "wf_builder ?sb3" by (rule append_char_wf)
    have t3: "toString ?sb3 = toString sb @ (if first then [] else '','') @ string_text (fst ?p) @ '':''"
      using wf2 by (simp add: append_char_toString t2 t1)
    have u: "object_loop n st sb obj i first depth =
      (case stringifyValueFast n st ?sb3 (snd ?p) (depth + 1) of
         None \<Rightarrow> None
       | Some sb4 \<Rightarrow> object_loop n st sb4 obj (i + 1) False depth)"
      using lt False by (subst object_loop.simps) (simp add: Let_def)
    from H [OF wf3, of "snd ?p" "depth + 1"]
    have r: "refines ?sb3 (stringifyValueFast n st ?sb3 (snd ?p) (depth + 1))
        (value_text n st (snd ?p) (depth + 1))" .
    show ?thesis
    proof (cases "stringifyValueFast n st ?sb3 (snd ?p) (depth + 1)")
      case None
      with r have "value_text n st (snd ?p) (depth + 1) = None" by (simp add: refines_def)
      with None False show ?thesis unfolding u d by (simp add: refines_def)
    next
      case (Some sb4)
      with r obtain t where t: "wf_builder sb4" "value_text n st (snd ?p) (depth + 1) = Some t"
        "toString sb4 = toString ?sb3 @ t"
        by (auto simp add: refines_def split: option.splits)
      from Suc.hyps(1) [OF k t(1), of False] lt
      have ih: "refines sb4 (object_loop n st sb4 obj (i + 1) False depth)
          (props_text n st (drop (i + 1) (props obj)) False depth)"
        by simp
      show ?thesis
      proof (cases "object_loop n st sb4 obj (i + 1) False depth")
        case None
        with ih have "props_text n st (drop (Suc i) (props obj)) False depth = None"
          by (simp add: refines_def)
        with None Some t False show ?thesis unfolding u d by (simp add: refines_def)
      next
        case (Some sb5)
        with ih obtain ts where ts: "wf_builder sb5"
          "props_text n st (drop (Suc i) (props obj)) False depth = Some ts"
          "toString sb5 = toString sb4 @ ts"
          by (auto simp add: refines_def split: option.splits)
        with Some \<open>stringifyValueFast n st ?sb3 (snd ?p) (depth + 1) = Some sb4\<close> t t3 False
        show ?thesis unfolding u d by (simp add: refines_def)
      qed
    qed
  qed
qed

lemma stringifyArrayFast_refines:
  assumes H: "\<And>sb v depth. wf_builder sb \<Longrightarrow>
      refines sb (stringifyValueFast n st sb v depth) (value_text n st v depth)"
    and wf: "wf_builder sb"
  shows "refines sb (stringifyArrayFast n st sb arr depth) (array_text n st (elems arr) depth)"
proof (cases "depth > 10")
  case True
  with wf show ?thesis
    by (subst stringifyArrayFast.simps) (simp add: refines_null)
next
  case False
  let ?sb0 = "append_char sb (CHR ''['')"
  have wf0: "wf_builder ?sb0" by (rule append_char_wf)
  have t0: "toString ?sb0 = toString sb @ ''[''" using wf by (rule append_char_toString)
  from array_loop_refines [OF H wf0, of 0 arr depth]
  have r: "refines ?sb0 (array_loop n st ?sb0 arr 0 depth) (elems_text n st (elems arr) True depth)"
    by simp
  show ?thesis
  proof (cases "array_loop n st ?sb0 arr 0 depth")
    case None
    with r False show ?thesis
      by (subst stringifyArrayFast.simps) (simp add: refines_def)
  next
    case (Some sb')
    with r obtain t where "wf_builder sb'" "elems_text n st (elems arr) True depth = Some t"
      "toString sb' = toString ?sb0 @ t"
      by (auto simp add: refines_def split: option.splits)
    with Some False t0 show ?thesis
      by (subst stringifyArrayFast.simps)
        (simp add: refines_def append_char_wf append_char_toString)
  qed
qed

lemma stringifyObjectFast_refines:
  assumes H: "\<And>sb v depth. wf_builder sb \<Longrightarrow>
      refines sb (stringifyValueFast n st sb v depth) (value_text n st v depth)"
    and wf: "wf_builder sb"
  shows "refines sb (stringifyObjectFast n st sb obj depth) (object_text n st (props obj) depth)"
proof (cases "depth > 10")
  case True
  with wf show ?thesis
    by (subst stringifyObjectFast.simps) (simp add: refines_null)
next
  case False
  let ?sb0 = "append_char sb (CHR ''{'')"
  have wf0: "wf_builder ?sb0" by (rule append_char_wf)
  have t0: "toString ?sb0 = toString sb @ ''{''" using wf by (rule append_char_toString)
  from object_loop_refines [OF H wf0, of 0 obj True depth]
  have r: "refines ?sb0 (object_loop n st ?sb0 obj 0 True depth) (props_text n st (props obj) True depth)"
    by simp
  show ?thesis
  proof (cases "object_loop n st ?sb0 obj 0 True depth")
    case None
    with r False show ?thesis
      by (subst stringifyObjectFast.simps) (simp add: refines_def)
  next
    case (Some sb')
    with r obtain t where "wf_builder sb'" "props_text n st (props obj) True depth = Some t"
      "toString sb' = toString ?sb0 @ t"
      by (auto simp add: refines_def split: option.splits)
    with Some False t0 show ?thesis
      by (subst stringifyObjectFast.simps)
        (simp add: refines_def append_char_wf append_char_toString)
  qed
qed

lemma number_refines:
  assumes "wf_builder sb"
  shows "refines sb
    (Some (if isnan num \<or> isinf num then append_bytes sb ''null'' 4
           else if double_eq_int num (to_int64 num)
                   \<and> double_ge_int num (- 9007199254740991)
                   \<and> double_le_int num 9007199254740991
                then appendInt sb (to_int64 num)
                else appendDouble sb num))
    (Some (number_text num))"
  using assms
  by (auto intro!: refines_SomeI
      simp add: number_text_def safe_integer_def append_bytes_wf append_bytes_toString
        appendInt_wf appendInt_text appendDouble_wf appendDouble_text)

lemma stringifyValueFast_text:
  "wf_builder sb \<Longrightarrow>
   refines sb (stringifyValueFast n st sb v depth) (value_text n st v depth)"
proof (induction n arbitrary: sb v depth)
  case 0
  show ?case by (simp add: stringifyValueFast.simps refines_def)
next
  case (Suc n)
  note wf = Suc.prems
  show ?case
  proof (cases v)
    case Null
    with wf show ?thesis by (simp add: stringifyValueFast.simps refines_null)
  next
    case Undefined
    with wf show ?thesis by (simp add: stringifyValueFast.simps refines_null)
  next
    case (Boolean b)
    with wf show ?thesis
      by (cases b) (auto intro!: refines_SomeI simp add: stringifyValueFast.simps append_bytes_wf append_bytes_toString)
  next
    case (Number num)
    with number_refines [OF wf, of num] show ?thesis
      by (simp add: stringifyValueFast.simps)
  next
    case (String s)
    with wf show ?thesis
      by (auto intro!: refines_SomeI simp add: stringifyValueFast.simps escapeStringFast_text)
  next
    case (Ref a)
    show ?thesis
    proof (cases "is_array (st a)")
      case True
      with Ref stringifyArrayFast_refines [OF Suc.IH wf, of "st a" depth] show ?thesis
        by (simp add: stringifyValueFast.simps Let_def)
    next
      case False
      show ?thesis
      proof (cases "toJSON (st a)")
        case None
        with Ref False stringifyObjectFast_refines [OF Suc.IH wf, of "st a" depth] show ?thesis
          by (simp add: stringifyValueFast.simps Let_def)
      next
        case (Some r)
        with Ref False Suc.IH [OF wf, of r depth] show ?thesis
          by (simp add: stringifyValueFast.simps Let_def)
      qed
    qed
  next
    case Other
    with wf show ?thesis by (simp add: stringifyValueFast.simps refines_null)
  qed
qed

lemma Stringify_text: "Stringify n st v = value_text n st v 0"
  using stringifyValueFast_text [OF wf_new_builder, of n st v 0]
  by (auto simp add: Stringify_def refines_def toString_new_builder split: option.splits)

section \<open>The \<open>toJSON\<close> member of an array is not read\<close>

declare value_text.simps [simp del] array_text.simps [simp del]

lemma elems_text_cong:
  assumes "\<And>v depth. value_text n st' v depth = value_text n st v depth"
  shows "elems_text n st' xs first depth = elems_text n st xs first depth"
  by (induction xs arbitrary: first) (simp_all add: assms cong: option.case_cong)

lemma props_text_cong:
  assumes "\<And>v depth. value_text n st' v depth = value_text n st v depth"
  shows "props_text n st' ps first depth = props_text n st ps first depth"
  by (induction ps arbitrary: first) (simp_all add: assms cong: option.case_cong)

lemma value_text_store_cong:
  assumes "\<And>b. is_array (st' b) = is_array (st b)"
    and "\<And>b. elems (st' b) = elems (st b)"
    and "\<And>b. props (st' b) = props (st b)"
    and "\<And>b. \<not> is_array (st b) \<Longrightarrow> toJSON (st' b) = toJSON (st b)"
  shows "value_text n st' v depth = value_text n st v depth"
proof (induction n arbitrary: v depth)
  case 0
  show ?case by (simp add: value_text.simps)
next
  case (Suc n)
  have e: "elems_text n st' xs first d = elems_text n st xs first d" for xs first d
    by (rule elems_text_cong) (rule Suc.IH)
  have p: "props_text n st' ps first d = props_text n st ps first d" for ps first d
    by (rule props_text_cong) (rule Suc.IH)
  show ?case
  proof (cases v)
    case (Ref b)
    show ?thesis
    proof (cases "is_array (st b)")
      case True
      with Ref show ?thesis
        by (simp add: value_text.simps array_text.simps e assms(1,2))
    next
      case False
      with Ref show ?thesis
        by (simp add: value_text.simps e p Suc.IH assms split: option.splits)
    qed
  qed (simp_all add: value_text.simps)
qed

lemma value_text_array_toJSON:
  assumes "is_array (st a)"
  shows "value_text n (st(a := (st a)\<lparr>toJSON := t\<rparr>)) v depth = value_text n st v depth"
  using assms by (intro value_text_store_cong) auto

section \<open>Number formatting yields number tokens\<close>

declare show_nat.simps [simp del]

lemma digit_char_table: "n < 10 \<Longrightarrow> digit_char n = ''0123456789'' ! n"
proof -
  assume "n < 10"
  then have n: "n \<in> set [0..<10]" by simp
  have "\<forall>i \<in> set [0..<10]. digit_char i = ''0123456789'' ! i" by code_simp
  from this n show ?thesis by (rule bspec)
qed

lemma is_digit_digit_char: "n < 10 \<Longrightarrow> is_digit (digit_char n)"
proof -
  assume "n < 10"
  then have n: "n \<in> set [0..<10]" by simp
  have "\<forall>i \<in> set [0..<10]. is_digit (digit_char i)" by code_simp
  from this n show ?thesis by (rule bspec)
qed

lemma digit_char_zero: "n < 10 \<Longrightarrow> digit_char n = CHR ''0'' \<Longrightarrow> n = 0"
proof -
  assume "n < 10" and z: "digit_char n = CHR ''0''"
  then have n: "n \<in> set [0..<10]" by simp
  have "\<forall>i \<in> set [0..<10]. digit_char i = CHR ''0'' \<longrightarrow> i = 0" by code_simp
  from this n have "digit_char n = CHR ''0'' \<longrightarrow> n = 0" by (rule bspec)
  with z show ?thesis by simp
qed

lemma show_nat_digits: "list_all is_digit (show_nat n)"
proof (induction n rule: show_nat.induct)
  case (1 n)
  show ?case
  proof (cases "n < 10")
    case True
    then show ?thesis by (subst show_nat.simps) (simp add: is_digit_digit_char)
  next
    case False
    with 1 show ?thesis by (subst show_nat.simps) (simp add: is_digit_digit_char)
  qed
qed

lemma show_nat_nonempty: "show_nat n \<noteq> []"
  by (subst show_nat.simps) simp

lemma show_nat_hd_zero: "hd (show_nat n) = CHR ''0'' \<Longrightarrow> n = 0"
proof (induction n rule: show_nat.induct)
  case (1 n)
  show ?case
  proof (cases "n < 10")
    case True
    with "1.prems" have "digit_char n = CHR ''0''" by (subst (asm) show_nat.simps) simp
    with True show ?thesis by (rule digit_char_zero)
  next
    case False
    with "1.prems" have "hd (show_nat (n div 10)) = CHR ''0''"
      by (subst (asm) show_nat.simps) (simp add: show_nat_nonempty)
    with False 1 have "n div 10 = 0" by simp
    with False show ?thesis by simp
  qed
qed

lemma show_nat_0: "show_nat 0 = ''0''"
  by (subst show_nat.simps) (simp add: digit_char_table)

lemma json_int_take_show_nat: "0 < k \<Longrightarrow> json_int (take k (show_nat n))"
proof -
  assume k: "0 < k"
  let ?ds = "show_nat n"
  have ne: "take k ?ds \<noteq> []" using k show_nat_nonempty [of n] by (cases ?ds; cases k) auto
  have dg: "list_all is_digit (take k ?ds)"
    using show_nat_digits [of n] by (auto simp add: list_all_iff dest: in_set_takeD)
  have hd: "hd (take k ?ds) = hd ?ds" using k by (cases k) (auto simp add: hd_take)
  have "length (take k ?ds) = 1 \<or> hd (take k ?ds) \<noteq> CHR ''0''"
  proof (cases "hd ?ds = CHR ''0''")
    case True
    then have "n = 0" by (rule show_nat_hd_zero)
    with k show ?thesis by (cases k) (simp_all add: show_nat_0)
  next
    case False
    with hd show ?thesis by simp
  qed
  with ne dg show ?thesis by (simp add: json_int_def)
qed

lemma json_int_show_nat: "json_int (show_nat n)"
  using json_int_take_show_nat [of "length (show_nat n)" n] show_nat_nonempty [of n]
  by simp

text \<open>A number token from its parts.\<close>

lemma is_digit_not_special:
  "is_digit c \<Longrightarrow> c \<noteq> CHR ''-'' \<and> c \<noteq> CHR ''.'' \<and> c \<noteq> CHR ''e''"
  by (auto simp add: is_digit_def)

lemma takeWhile_digits:
  "list_all is_digit ds \<Longrightarrow> rest = [] \<or> \<not> is_digit (hd rest) \<Longrightarrow>
   takeWhile is_digit (ds @ rest) = ds \<and> dropWhile is_digit (ds @ rest) = rest"
proof (induction ds)
  case Nil
  then show ?case by (cases rest) auto
next
  case (Cons d ds)
  then show ?case by simp
qed

lemma json_exp_shape: "exp_shape ep \<Longrightarrow> json_exp ep"
  by (auto simp add: exp_shape_def json_exp_def)

lemma exp_shape_hd: "exp_shape ep \<Longrightarrow> ep = [] \<or> \<not> is_digit (hd ep)"
  by (auto simp add: exp_shape_def is_digit_def)

lemma json_frac_exp_shape:
  assumes "frac_shape fp" and "exp_shape ep"
  shows "json_frac_exp (fp @ ep)"
proof (cases "fp = []")
  case True
  with assms(2) show ?thesis
    by (auto simp add: json_frac_exp_def exp_shape_def json_exp_def)
next
  case False
  with assms(1) obtain fs where fs: "fp = CHR ''.'' # fs" "fs \<noteq> []" "list_all is_digit fs"
    by (auto simp add: frac_shape_def)
  from takeWhile_digits [OF fs(3) exp_shape_hd [OF assms(2)]] fs json_exp_shape [OF assms(2)]
  show ?thesis by (simp add: json_frac_exp_def)
qed

lemma frac_exp_hd:
  assumes "frac_shape fp" and "exp_shape ep"
  shows "fp @ ep = [] \<or> \<not> is_digit (hd (fp @ ep))"
  using assms by (auto simp add: frac_shape_def exp_shape_def is_digit_def)

lemma is_number_parts:
  assumes "json_int ip" and "frac_shape fp" and "exp_shape ep"
  shows "is_number (ip @ fp @ ep)" and "is_number (CHR ''-'' # ip @ fp @ ep)"
proof -
  from assms(1) have dg: "list_all is_digit ip" and ne: "ip \<noteq> []"
    by (simp_all add: json_int_def)
  from takeWhile_digits [OF dg frac_exp_hd [OF assms(2,3)]]
  have tw: "takeWhile is_digit (ip @ fp @ ep) = ip" "dropWhile is_digit (ip @ fp @ ep) = fp @ ep"
    by simp_all
  from ne dg have "hd ip \<noteq> CHR ''-''"
    by (cases ip) (auto dest: is_digit_not_special)
  with ne have "(case ip @ fp @ ep of [] \<Rightarrow> [] | c # r \<Rightarrow> if c = CHR ''-'' then r else ip @ fp @ ep)
      = ip @ fp @ ep"
    by (cases ip) auto
  with tw assms(1) json_frac_exp_shape [OF assms(2,3)]
  show "is_number (ip @ fp @ ep)" by (simp add: is_number_def)
  from tw assms(1) json_frac_exp_shape [OF assms(2,3)]
  show "is_number (CHR ''-'' # ip @ fp @ ep)" by (simp add: is_number_def)
qed

lemma is_number_snprintf_ld: "is_number (snprintf_ld v)"
proof -
  have f: "frac_shape []" by (simp add: frac_shape_def)
  have e: "exp_shape []" by (simp add: exp_shape_def)
  from is_number_parts [OF json_int_show_nat f e] show ?thesis
    by (simp add: snprintf_ld_def)
qed

lemma strip_zeros_digits: "list_all is_digit fs \<Longrightarrow> list_all is_digit (strip_zeros fs)"
  by (auto simp add: strip_zeros_def list_all_iff dest: set_dropWhileD)

lemma frac_shape_fraction_part: "list_all is_digit fs \<Longrightarrow> frac_shape (fraction_part fs)"
  by (simp add: fraction_part_def frac_shape_def strip_zeros_digits)

lemma exp_shape_exponent_part: "exp_shape (exponent_part X)"
  by (auto simp add: exponent_part_def exp_shape_def show_nat_digits show_nat_nonempty
      is_digit_def)

lemma drop_digits: "list_all is_digit ds \<Longrightarrow> list_all is_digit (drop k ds)"
  by (auto simp add: list_all_iff dest: in_set_dropD)

lemma json_int_0: "json_int ''0''"
  by (simp add: json_int_def is_digit_def)

lemma is_number_format_g15:
  "is_number (format_g15 n m) \<and> is_number (CHR ''-'' # format_g15 n m)"
proof -
  have f0: "frac_shape []" by (simp add: frac_shape_def)
  have e0: "exp_shape []" by (simp add: exp_shape_def)
  obtain D X where dx: "digits15 n m = (D, X)" by (cases "digits15 n m")
  let ?ds = "show_nat D"
  have dg: "list_all is_digit ?ds" by (rule show_nat_digits)
  show ?thesis
  proof (cases "n = 0")
    case True
    with is_number_parts [OF json_int_0 f0 e0] show ?thesis by (simp add: format_g15_def Let_def)
  next
    case nz: False
    show ?thesis
    proof (cases "X < - 4 \<or> X \<ge> 15")
      case True
      have i: "json_int (take 1 ?ds)" by (rule json_int_take_show_nat) simp
      have f: "frac_shape (fraction_part (drop 1 ?ds))"
        by (rule frac_shape_fraction_part) (rule drop_digits [OF dg])
      from is_number_parts [OF i f exp_shape_exponent_part [of X]] nz True dx
      show ?thesis by (simp add: format_g15_def Let_def)
    next
      case mid: False
      show ?thesis
      proof (cases "X \<ge> 0")
        case True
        have i: "json_int (take (nat X + 1) ?ds)" by (rule json_int_take_show_nat) simp
        have f: "frac_shape (fraction_part (drop (nat X + 1) ?ds))"
          by (rule frac_shape_fraction_part) (rule drop_digits [OF dg])
        from is_number_parts [OF i f e0] nz mid True dx
        show ?thesis by (simp add: format_g15_def Let_def)
      next
        case False
        have "list_all is_digit (replicate (nat (- X) - 1) (CHR ''0'') @ ?ds)"
          using dg by (auto simp add: list_all_iff is_digit_def)
        then have f: "frac_shape (fraction_part (replicate (nat (- X) - 1) (CHR ''0'') @ ?ds))"
          by (rule frac_shape_fraction_part)
        from is_number_parts [OF json_int_0 f e0] nz mid False dx
        show ?thesis by (simp add: format_g15_def Let_def)
      qed
    qed
  qed
qed

lemma is_number_snprintf_g15: "is_number (snprintf_g15 d)"
  using is_number_format_g15 [of "mag_num d" "den d"] by (simp add: snprintf_g15_def)

lemma not_number_null: "\<not> is_number ''null''"
  by (simp add: is_number_def json_int_def is_digit_def)

lemma den_pos: "0 < den d"
  by (simp add: den_def)

lemma to_int64_value:
  assumes v: "snum d = k * int (den d)" and r: "- (2 ^ 63) \<le> k" "k < 2 ^ 63"
  shows "to_int64 d = k"
proof -
  let ?D = "int (den d)"
  have D: "0 < ?D" using den_pos [of d] by simp
  have q: "int (mag_num d div den d) = int (mag_num d) div ?D" by (simp add: zdiv_int)
  have "(if sign_bit d then - int (mag_num d div den d) else int (mag_num d div den d)) = k"
  proof (cases "sign_bit d")
    case True
    with v have e: "int (mag_num d) = (- k) * ?D" by (simp add: snum_def)
    have "int (mag_num d) div ?D = ((- k) * ?D) div ?D" by (simp only: e)
    also have "\<dots> = - k" using D by (intro nonzero_mult_div_cancel_right) simp
    finally show ?thesis using True q by simp
  next
    case False
    with v have e: "int (mag_num d) = k * ?D" by (simp add: snum_def)
    have "int (mag_num d) div ?D = (k * ?D) div ?D" by (simp only: e)
    also have "\<dots> = k" using D by (intro nonzero_mult_div_cancel_right) simp
    finally show ?thesis using False q by simp
  qed
  with r show ?thesis by (simp add: to_int64_def Let_def)
qed

lemma safe_integer_value_to_int64:
  "safe_integer_value d k \<Longrightarrow> to_int64 d = k \<and> safe_integer d"
proof -
  assume a: "safe_integer_value d k"
  then have v: "snum d = k * int (den d)" and lo: "- 9007199254740991 \<le> k"
    and hi: "k \<le> 9007199254740991"
    by (simp_all add: safe_integer_value_def)
  from lo hi have t: "to_int64 d = k" by (intro to_int64_value [OF v]) simp_all
  have D: "0 < int (den d)" using den_pos [of d] by simp
  from lo D have "- 9007199254740991 * int (den d) \<le> k * int (den d)"
    by (intro mult_right_mono) simp_all
  moreover from hi D have "k * int (den d) \<le> 9007199254740991 * int (den d)"
    by (intro mult_right_mono) simp_all
  ultimately show ?thesis using t v
    by (simp add: safe_integer_def double_eq_int_def double_ge_int_def double_le_int_def)
qed

lemma safe_integer_value_of: "safe_integer d \<Longrightarrow> safe_integer_value d (to_int64 d)"
proof -
  assume a: "safe_integer d"
  have D: "0 < int (den d)" using den_pos [of d] by simp
  from a have v: "snum d = to_int64 d * int (den d)"
    and lo: "- 9007199254740991 * int (den d) \<le> snum d"
    and hi: "snum d \<le> 9007199254740991 * int (den d)"
    by (simp_all add: safe_integer_def double_eq_int_def double_ge_int_def double_le_int_def)
  from lo v have "(- 9007199254740991) * int (den d) \<le> to_int64 d * int (den d)" by simp
  from mult_right_le_imp_le [OF this D] have "- 9007199254740991 \<le> to_int64 d" .
  moreover from hi v have "to_int64 d * int (den d) \<le> 9007199254740991 * int (den d)" by simp
  from mult_right_le_imp_le [OF this D] have "to_int64 d \<le> 9007199254740991" .
  ultimately show ?thesis using v by (simp add: safe_integer_value_def)
qed

lemma Stringify_Number: "Stringify (Suc n) st (Number d) = Some (number_text d)"
  by (simp add: Stringify_text value_text.simps)

lemma is_number_number_text: "\<not> isnan d \<Longrightarrow> \<not> isinf d \<Longrightarrow> is_number (number_text d)"
  by (simp add: number_text_def is_number_snprintf_ld is_number_snprintf_g15)

text \<open>Evaluation of the formatting on concrete doubles.\<close>

lemma fields_nan: "exponent_field 0x7FF8000000000000 = 2047" "fraction_field 0x7FF8000000000000 = 2251799813685248"
  by (simp_all add: exponent_field_def fraction_field_def)

lemma fields_inf: "exponent_field 0x7FF0000000000000 = 2047" "fraction_field 0x7FF0000000000000 = 0"
  by (simp_all add: exponent_field_def fraction_field_def)

lemma fields_one: "exponent_field 0x3FF0000000000000 = 1023" "fraction_field 0x3FF0000000000000 = 0"
  "sign_bit 0x3FF0000000000000 = False"
  by (simp_all add: exponent_field_def fraction_field_def sign_bit_def)

lemma fields_2_5: "exponent_field 0x4004000000000000 = 1024"
  "fraction_field 0x4004000000000000 = 1125899906842624"
  "sign_bit 0x4004000000000000 = False"
  by (simp_all add: exponent_field_def fraction_field_def sign_bit_def)

lemma value_one: "snum 0x3FF0000000000000 = 4503599627370496" "den 0x3FF0000000000000 = 4503599627370496"
  by (simp_all add: snum_def den_def mag_num_def significand_def exponent2_def fields_one)

lemma value_2_5: "mag_num 0x4004000000000000 = 5629499534213120" "den 0x4004000000000000 = 2251799813685248"
  "snum 0x4004000000000000 = 5629499534213120"
  by (simp_all add: snum_def den_def mag_num_def significand_def exponent2_def fields_2_5)

lemma show_nat_25: "show_nat 250000000000000 = ''250000000000000''"
  by (simp add: show_nat.simps digit_char_table)

lemma g15_2_5: "snprintf_g15 0x4004000000000000 = ''2.5''"
  by (simp add: snprintf_g15_def format_g15_def digits15_def decimal_exponent_def scaled_def
      round_div_def log10_up.simps value_2_5 fields_2_5 show_nat_25 fraction_part_def
      strip_zeros_def Let_def)

lemma ld_1: "snprintf_ld 1 = ''1''"
  by (simp add: snprintf_ld_def show_nat.simps digit_char_table)

lemma not_safe_2_5: "\<not> safe_integer_value 0x4004000000000000 j"
proof
  assume "safe_integer_value 0x4004000000000000 j"
  then have "(5629499534213120 :: int) = j * 2251799813685248"
    by (simp add: safe_integer_value_def value_2_5)
  then have "(5629499534213120 :: int) mod 2251799813685248 = (j * 2251799813685248) mod 2251799813685248"
    by (simp only:)
  then show False by simp
qed

section \<open>The text of the serializer is a JSON document\<close>

lemma is_hex_hex_digit: "n < 16 \<Longrightarrow> is_hex (hex_digit u n)"
  by (simp add: is_hex_def HEX_TABLE_hex_digit)

lemma ESCAPE_TABLE_Some:
  "ESCAPE_TABLE c = Some e \<Longrightarrow>
   \<exists>x. e = [CHR 0x5C, x] \<and>
       x \<in> set [CHR 0x22, CHR 0x5C, CHR ''/'', CHR ''b'', CHR ''f'', CHR ''n'', CHR ''r'', CHR ''t'']"
  by (auto simp add: ESCAPE_TABLE_def split: if_splits)

lemma ESCAPE_TABLE_special:
  "c = CHR 0x22 \<or> c = CHR 0x5C \<Longrightarrow> ESCAPE_TABLE c \<noteq> None"
  by (auto simp add: ESCAPE_TABLE_def)

lemma json_chars_escape_byte:
  assumes "json_chars cs"
  shows "json_chars (escape_byte c @ cs)"
proof (cases "(of_char c :: nat) < 0x20 \<or> c = CHR 0x22 \<or> c = CHR 0x5C")
  case False
  with assms show ?thesis
    by (auto simp add: escape_byte_def intro: chars_plain)
next
  case True
  show ?thesis
  proof (cases "ESCAPE_TABLE c")
    case (Some e)
    from ESCAPE_TABLE_Some [OF this] obtain x where
      "e = [CHR 0x5C, x]"
      "x \<in> set [CHR 0x22, CHR 0x5C, CHR ''/'', CHR ''b'', CHR ''f'', CHR ''n'', CHR ''r'', CHR ''t'']"
      by blast
    with chars_escape [OF this(2) assms] True Some show ?thesis
      by (simp add: escape_byte_def)
  next
    case None
    let ?n = "of_char c :: nat"
    have h: "is_hex (hex_digit False (?n div 4096 mod 16))" "is_hex (hex_digit False (?n div 256 mod 16))"
      "is_hex (hex_digit False (?n div 16 mod 16))" "is_hex (hex_digit False (?n mod 16))"
      by (simp_all add: is_hex_hex_digit)
    from chars_unicode [OF h assms] True None show ?thesis
      by (simp add: escape_byte_def snprintf_u04x_def Let_def)
  qed
qed

lemma json_chars_escaped: "json_chars (concat (map escape_byte s))"
  by (induction s) (simp_all add: chars_Nil json_chars_escape_byte)

lemma json_value_string_text: "json_value (string_text s)"
  using value_string [OF json_chars_escaped [of s]] by (simp add: string_text_def)

lemma json_value_number_text: "json_value (number_text d)"
proof (cases "isnan d \<or> isinf d")
  case True
  then show ?thesis by (auto simp add: number_text_def intro: value_null)
next
  case False
  then have "is_number (number_text d)" by (simp add: is_number_number_text)
  then show ?thesis by (rule value_number)
qed

text \<open>The elements and the members, after the separator.\<close>

lemma elems_text_json:
  assumes H: "\<And>v depth s. value_text n st v depth = Some s \<Longrightarrow> json_value s"
  shows "elems_text n st xs first depth = Some t \<Longrightarrow> xs \<noteq> [] \<Longrightarrow>
    \<exists>es. json_elements es \<and> t = (if first then [] else '','') @ es"
proof (induction xs arbitrary: first t)
  case Nil
  then show ?case by simp
next
  case (Cons x xs)
  from Cons.prems(1) obtain tv ts where
    tv: "value_text n st x (depth + 1) = Some tv"
    and ts: "elems_text n st xs False depth = Some ts"
    and t: "t = (if first then [] else '','') @ tv @ ts"
    by (auto split: option.splits)
  from H [OF tv] have jv: "json_value tv" .
  show ?case
  proof (cases "xs = []")
    case True
    with ts have "ts = []" by simp
    with t jv show ?thesis by (auto intro: elements_one)
  next
    case False
    from Cons.IH [OF ts False] obtain es where "json_elements es" "ts = '','' @ es" by auto
    with t elements_more [OF jv this(1)] show ?thesis by auto
  qed
qed

lemma props_text_json:
  assumes H: "\<And>v depth s. value_text n st v depth = Some s \<Longrightarrow> json_value s"
  shows "props_text n st ps first depth = Some t \<Longrightarrow>
    t = [] \<or> (\<exists>ms. json_members ms \<and> t = (if first then [] else '','') @ ms)"
proof (induction ps arbitrary: first t)
  case Nil
  then show ?case by simp
next
  case (Cons p ps)
  show ?case
  proof (cases "snd p = Undefined")
    case True
    with Cons.prems have "props_text n st ps first depth = Some t" by simp
    from Cons.IH [OF this] show ?thesis .
  next
    case False
    with Cons.prems obtain tv ts where
      tv: "value_text n st (snd p) (depth + 1) = Some tv"
      and ts: "props_text n st ps False depth = Some ts"
      and t: "t = (if first then [] else '','') @ string_text (fst p) @ '':'' @ tv @ ts"
      by (auto split: option.splits)
    from H [OF tv] have jv: "json_value tv" .
    have k: "json_chars (concat (map escape_byte (fst p)))" by (rule json_chars_escaped)
    from Cons.IH [OF ts] have "ts = [] \<or> (\<exists>ms. json_members ms \<and> ts = '','' @ ms)" by simp
    then show ?thesis
    proof
      assume "ts = []"
      with t members_one [OF k jv] show ?thesis by (auto simp add: string_text_def)
    next
      assume "\<exists>ms. json_members ms \<and> ts = '','' @ ms"
      then obtain ms where "json_members ms" "ts = '','' @ ms" by blast
      with t members_more [OF k jv this(1)] show ?thesis by (auto simp add: string_text_def)
    qed
  qed
qed

lemma value_text_json: "value_text n st v depth = Some s \<Longrightarrow> json_value s"
proof (induction n arbitrary: v depth s)
  case 0
  then show ?case by (simp add: value_text.simps)
next
  case (Suc n)
  note H = Suc.IH
  show ?case
  proof (cases v)
    case Null
    with Suc.prems show ?thesis by (auto simp add: value_text.simps intro: value_null)
  next
    case Undefined
    with Suc.prems show ?thesis by (auto simp add: value_text.simps intro: value_null)
  next
    case (Boolean b)
    with Suc.prems show ?thesis
      by (cases b) (auto simp add: value_text.simps intro: value_true value_false)
  next
    case (Number d)
    with Suc.prems show ?thesis by (auto simp add: value_text.simps json_value_number_text)
  next
    case (String x)
    with Suc.prems show ?thesis by (auto simp add: value_text.simps json_value_string_text)
  next
    case Other
    with Suc.prems show ?thesis by (auto simp add: value_text.simps intro: value_null)
  next
    case (Ref a)
    show ?thesis
    proof (cases "is_array (st a)")
      case True
      with Ref Suc.prems have a: "array_text n st (elems (st a)) depth = Some s"
        by (simp add: value_text.simps)
      show ?thesis
      proof (cases "depth > 10")
        case True
        with a show ?thesis by (auto simp add: array_text.simps intro: value_null)
      next
        case False
        with a obtain t where t: "elems_text n st (elems (st a)) True depth = Some t"
          and s: "s = ''['' @ t @ '']''"
          by (auto simp add: array_text.simps split: option.splits)
        show ?thesis
        proof (cases "elems (st a) = []")
          case True
          with t s show ?thesis by (auto intro: value_empty_array)
        next
          case False
          have "\<exists>es. json_elements es \<and> t = (if True then [] else '','') @ es"
            using t False by (rule elems_text_json [rotated]) (rule H)
          then have "json_elements t" by simp
          from value_array [OF this] s show ?thesis by simp
        qed
      qed
    next
      case False
      show ?thesis
      proof (cases "toJSON (st a)")
        case (Some r)
        with Ref False Suc.prems have "value_text n st r depth = Some s"
          by (simp add: value_text.simps)
        then show ?thesis by (rule H)
      next
        case None
        with Ref False Suc.prems have a: "object_text n st (props (st a)) depth = Some s"
          by (simp add: value_text.simps)
        show ?thesis
        proof (cases "depth > 10")
          case True
          with a show ?thesis by (auto intro: value_null)
        next
          case False
          with a obtain t where t: "props_text n st (props (st a)) True depth = Some t"
            and s: "s = ''{'' @ t @ ''}''"
            by (auto split: option.splits)
          have "t = [] \<or> (\<exists>ms. json_members ms \<and> t = (if True then [] else '','') @ ms)"
            using t by (rule props_text_json [rotated]) (rule H)
          then have "t = [] \<or> (\<exists>ms. json_members ms \<and> t = ms)" by simp
          then show ?thesis
          proof
            assume "t = []"
            with s show ?thesis by (auto intro: value_empty_object)
          next
            assume "\<exists>ms. json_members ms \<and> t = ms"
            then have "json_members t" by blast
            from value_object [OF this] s show ?thesis by simp
          qed
        qed
      qed
    qed
  qed
qed

lemma elems_text_fuel:
  assumes H: "\<And>v depth s. value_text n st v depth = Some s \<Longrightarrow> value_text m st v depth = Some s"
  shows "elems_text n st xs first depth = Some t \<Longrightarrow> elems_text m st xs first depth = Some t"
proof (induction xs arbitrary: first t)
  case Nil
  then show ?case by simp
next
  case (Cons x xs)
  from Cons.prems obtain tv ts where
    tv: "value_text n st x (depth + 1) = Some tv"
    and ts: "elems_text n st xs False depth = Some ts"
    and t: "t = (if first then [] else '','') @ tv @ ts"
    by (auto split: option.splits)
  from H [OF tv] Cons.IH [OF ts] t show ?case by simp
qed

lemma props_text_fuel:
  assumes H: "\<And>v depth s. value_text n st v depth = Some s \<Longrightarrow> value_text m st v depth = Some s"
  shows "props_text n st ps first depth = Some t \<Longrightarrow> props_text m st ps first depth = Some t"
proof (induction ps arbitrary: first t)
  case Nil
  then show ?case by simp
next
  case (Cons p ps)
  show ?case
  proof (cases "snd p = Undefined")
    case True
    with Cons.prems have "props_text n st ps first depth = Some t" by simp
    from Cons.IH [OF this] True show ?thesis by simp
  next
    case False
    with Cons.prems obtain tv ts where
      tv: "value_text n st (snd p) (depth + 1) = Some tv"
      and ts: "props_text n st ps False depth = Some ts"
      and t: "t = (if first then [] else '','') @ string_text (fst p) @ '':'' @ tv @ ts"
      by (auto split: option.splits)
    from H [OF tv] Cons.IH [OF ts] t False show ?thesis by simp
  qed
qed

lemma value_text_Suc:
  "value_text n st v depth = Some s \<Longrightarrow> value_text (Suc n) st v depth = Some s"
proof (induction n arbitrary: v depth s)
  case 0
  then show ?case by (simp add: value_text.simps)
next
  case (Suc n)
  note H = Suc.IH
  show ?case
  proof (cases v)
    case (Ref a)
    show ?thesis
    proof (cases "is_array (st a)")
      case True
      with Ref Suc.prems have a: "array_text n st (elems (st a)) depth = Some s"
        by (simp add: value_text.simps)
      have "array_text (Suc n) st (elems (st a)) depth = Some s"
      proof (cases "depth > 10")
        case True
        with a show ?thesis by (simp add: array_text.simps)
      next
        case False
        with a obtain t where t: "elems_text n st (elems (st a)) True depth = Some t"
          and s: "s = ''['' @ t @ '']''"
          by (auto simp add: array_text.simps split: option.splits)
        have "elems_text (Suc n) st (elems (st a)) True depth = Some t"
          using t by (rule elems_text_fuel [rotated]) (rule H)
        with False s show ?thesis by (simp add: array_text.simps)
      qed
      with Ref True show ?thesis by (simp add: value_text.simps)
    next
      case False
      show ?thesis
      proof (cases "toJSON (st a)")
        case (Some r)
        with Ref False Suc.prems have "value_text n st r depth = Some s"
          by (simp add: value_text.simps)
        from H [OF this] Ref False Some show ?thesis by (simp add: value_text.simps)
      next
        case None
        with Ref False Suc.prems have a: "object_text n st (props (st a)) depth = Some s"
          by (simp add: value_text.simps)
        have "object_text (Suc n) st (props (st a)) depth = Some s"
        proof (cases "depth > 10")
          case True
          with a show ?thesis by simp
        next
          case False
          with a obtain t where t: "props_text n st (props (st a)) True depth = Some t"
            and s: "s = ''{'' @ t @ ''}''"
            by (auto split: option.splits)
          have "props_text (Suc n) st (props (st a)) True depth = Some t"
            using t by (rule props_text_fuel [rotated]) (rule H)
          with False s show ?thesis by simp
        qed
        with Ref False None show ?thesis by (simp add: value_text.simps)
      qed
    qed
  qed (use Suc.prems in \<open>simp_all add: value_text.simps\<close>)
qed

lemma value_text_fuel:
  "n \<le> m \<Longrightarrow> value_text n st v depth = Some s \<Longrightarrow> value_text m st v depth = Some s"
  by (induction m) (auto simp add: le_Suc_eq value_text_Suc)

lemma elems_text_total:
  assumes "\<And>v. value_text n st v (depth + 1) \<noteq> None"
  shows "elems_text n st xs first depth \<noteq> None"
proof (induction xs arbitrary: first)
  case Nil
  show ?case by simp
next
  case (Cons x xs)
  from assms [of x] obtain tv where "value_text n st x (depth + 1) = Some tv" by auto
  moreover from Cons [of False] obtain ts where "elems_text n st xs False depth = Some ts" by auto
  ultimately show ?case by simp
qed

lemma props_text_total:
  assumes "\<And>v. value_text n st v (depth + 1) \<noteq> None"
  shows "props_text n st ps first depth \<noteq> None"
proof (induction ps arbitrary: first)
  case Nil
  show ?case by simp
next
  case (Cons p ps)
  from assms [of "snd p"] obtain tv where "value_text n st (snd p) (depth + 1) = Some tv" by auto
  moreover from Cons [of False] obtain ts where "props_text n st ps False depth = Some ts" by auto
  ultimately show ?case using Cons [of first] by simp
qed

lemma value_text_total:
  assumes nt: "\<forall>a. toJSON (st a) = None"
  shows "12 \<le> int n + depth \<Longrightarrow> 0 < n \<Longrightarrow> value_text n st v depth \<noteq> None"
proof (induction n arbitrary: v depth)
  case 0
  then show ?case by simp
next
  case (Suc n)
  show ?case
  proof (cases v)
    case (Ref a)
    have sub: "value_text n st x (depth + 1) \<noteq> None" if "\<not> depth > 10" for x
    proof -
      from that Suc.prems(1) have "12 \<le> int n + (depth + 1)" "0 < n" by simp_all
      then show ?thesis by (rule Suc.IH)
    qed
    show ?thesis
    proof (cases "depth > 10")
      case True
      with Ref nt show ?thesis by (simp add: value_text.simps array_text.simps)
    next
      case False
      from elems_text_total [of n st depth "elems (st a)" True] sub [OF False]
      have e: "elems_text n st (elems (st a)) True depth \<noteq> None" by blast
      from props_text_total [of n st depth "props (st a)" True] sub [OF False]
      have p: "props_text n st (props (st a)) True depth \<noteq> None" by blast
      from Ref nt False e p show ?thesis
        by (auto simp add: value_text.simps array_text.simps split: option.splits)
    qed
  qed (simp_all add: value_text.simps)
qed

section \<open>The percent decoder against the specification\<close>

text \<open>
  C2: \<open>DecodeURIComponent\<close> equals the reference percent-decoder: a \<open>%\<close> followed by two
  valid hex digits becomes the byte \<open>(hi << 4) | lo\<close> and consumes three input bytes; a
  \<open>%\<close> not followed by two valid hex digits, or with fewer than two bytes remaining, is
  passed through and consumes one byte; \<open>+\<close> becomes the space byte; every other byte
  passes through. The output is at most as long as the input. The valid hex digits are
  the 22 bytes \<open>0\<close> to \<open>9\<close>, \<open>a\<close> to \<open>f\<close> and \<open>A\<close> to \<open>F\<close>, with the values 0 to 15.
\<close>

theorem DecodeURIComponent_percent_decode:
  "DecodeURIComponent s = percent_decode s \<and> length (DecodeURIComponent s) \<le> length s \<and>
   is_hex c = (c \<in> set ''0123456789abcdefABCDEF'') \<and>
   map HEX_TABLE ''0123456789abcdefABCDEF''
     = [0, 1, 2, 3, 4, 5, 6, 7, 8, 9, 10, 11, 12, 13, 14, 15, 10, 11, 12, 13, 14, 15]"
  using HEX_TABLE_values
  by (simp add: DecodeURIComponent_eq length_percent_decode is_hex_iff)

text \<open>
  C6: for every byte string \<open>b\<close>, decoding the percent-encoding of \<open>b\<close> returns \<open>b\<close>,
  where the encoding writes \<open>%XX\<close> for every byte that is not a letter or digit, with
  hex digits of either case.
\<close>

theorem decode_percent_encode_roundtrip: "DecodeURIComponent (percent_encode upper b) = b"
  by (simp add: DecodeURIComponent_eq percent_decode_encode)

section \<open>The query splitter against the specification\<close>





section \<open>The string builder against the specification\<close>

text \<open>
  C8 (as amended): the buffer starts with capacity 4096 and no committed byte. When an
  append would exceed the capacity, the buffer grows to twice the required size, the
  required size being the committed position plus the bytes appended; otherwise the
  capacity stays. Growing and appending keep the committed bytes: the committed text
  after an append is the committed text before it followed by the appended bytes.
\<close>

theorem builder_growth:
  "length (sb_buffer new_builder) = 4096 \<and> sb_pos new_builder = 0 \<and>
   length (sb_buffer (ensureCapacity sb needed)) =
     (if sb_pos sb + needed > length (sb_buffer sb) then (sb_pos sb + needed) * 2
      else length (sb_buffer sb)) \<and>
   (sb_pos sb \<le> length (sb_buffer sb) \<and> len \<le> length str \<longrightarrow>
      toString (ensureCapacity sb needed) = toString sb \<and>
      toString (append_bytes sb str len) = toString sb @ take len str \<and>
      toString (append_char sb c) = toString sb @ [c] \<and>
      sb_pos (append_bytes sb str len) \<le> length (sb_buffer (append_bytes sb str len)) \<and>
      sb_pos (append_char sb c) \<le> length (sb_buffer (append_char sb c)))"
  using append_bytes_wf [of len str sb] append_char_wf [of sb c]
  by (simp add: ensureCapacity_length ensureCapacity_toString append_bytes_toString append_char_toString
      wf_builder_def new_builder_def)

theorem builder_growth_witness:
  "sb_pos new_builder \<le> length (sb_buffer new_builder) \<and> (4::nat) \<le> length ''null'' \<and>
   toString (append_bytes new_builder ''null'' 4) = ''null'' \<and>
   toString (append_char new_builder (CHR ''['')) = ''['' \<and>
   length (sb_buffer (ensureCapacity new_builder 5000)) = 10000 \<and>
   length (sb_buffer (ensureCapacity new_builder 4096)) = 4096"
  using builder_growth [of new_builder 5000 4 "''null''" "CHR ''[''"]
    builder_growth [of new_builder 4096 4 "''null''" "CHR ''[''"]
  by (simp add: toString_new_builder)

text \<open>
  The growth formula \<open>max(required, current * 2) * 2\<close> fails on the code: with 4096
  committed bytes in the initial buffer, one more byte grows it to 8194, not to 16384.
\<close>

theorem builder_growth_counterexample:
  "\<not> (\<forall>sb needed. sb_pos sb + needed > length (sb_buffer sb) \<longrightarrow>
        length (sb_buffer (ensureCapacity sb needed))
          = max (sb_pos sb + needed) (length (sb_buffer sb) * 2) * 2)"
proof
  assume a: "\<forall>sb needed. sb_pos sb + needed > length (sb_buffer sb) \<longrightarrow>
        length (sb_buffer (ensureCapacity sb needed))
          = max (sb_pos sb + needed) (length (sb_buffer sb) * 2) * 2"
  let ?sb = "append_bytes new_builder (replicate 4096 (CHR ''a'')) 4096"
  have p: "sb_pos ?sb = 4096"
    by (simp add: append_bytes_def Let_def ensureCapacity_pos new_builder_def)
  have l: "length (sb_buffer ?sb) = 4096"
    by (simp add: append_bytes_def Let_def ensureCapacity_def new_builder_def)
  from a have "sb_pos ?sb + 1 > length (sb_buffer ?sb) \<longrightarrow>
        length (sb_buffer (ensureCapacity ?sb 1)) = max (sb_pos ?sb + 1) (length (sb_buffer ?sb) * 2) * 2"
    by blast
  then show False
    by (simp add: ensureCapacity_length p l)
qed

section \<open>The entry points against the specification\<close>



section \<open>The serializer on a \<open>toJSON\<close> member that returns its own object\<close>

lemma self_toJSON_None:
  "stringifyValueFast n self_toJSON_store sb (Ref a) depth = None"
  by (induction n) (simp_all add: stringifyValueFast.simps self_toJSON_store_def)

text \<open>
  C4 (failing input): on an object whose \<open>toJSON\<close> member returns the object itself,
  \<open>stringifyValueFast\<close> calls itself with the same value and the same depth; no amount
  of fuel makes \<open>Stringify\<close> return. The depth check of \<open>stringifyArrayFast\<close> and
  \<open>stringifyObjectFast\<close> is never reached.
\<close>

theorem stringify_toJSON_self_never_returns:
  "\<forall>fuel. Stringify fuel self_toJSON_store (Ref 0) = None"
  by (simp add: Stringify_def self_toJSON_None)

text \<open>
  C1 (failing input): the entry point \<open>stringify\<close> does not return on that value, so
  it produces no JSON document for it.
\<close>

theorem FastStringify_toJSON_self_never_returns:
  "\<forall>fuel. FastStringify fuel self_toJSON_store [Ref 0] = None"
  by (simp add: FastStringify_def Stringify_def self_toJSON_None)

section \<open>Arrays against the specification\<close>

text \<open>
  C9: a value that is an array is serialized element by element even when the array
  carries a callable \<open>toJSON\<close> member: \<open>stringifyValueFast\<close> dispatches to
  \<open>stringifyArrayFast\<close> before the \<open>toJSON\<close> check, the text is that of the elements
  between brackets, and replacing the \<open>toJSON\<close> member of the array by anything (or
  removing it) changes the result for no value.
\<close>

theorem array_before_toJSON:
  assumes "is_array (st a)"
  shows "stringifyValueFast (Suc n) st sb (Ref a) depth = stringifyArrayFast n st sb (st a) depth \<and>
    Stringify (Suc n) st (Ref a) = array_text n st (elems (st a)) 0 \<and>
    Stringify m (st(a := (st a)\<lparr>toJSON := t\<rparr>)) v = Stringify m st v"
  using assms
  by (simp add: stringifyValueFast.simps Let_def Stringify_text value_text.simps
      value_text_array_toJSON)

theorem array_before_toJSON_witness:
  "is_array (array_with_toJSON_store 1) \<and>
   toJSON (array_with_toJSON_store 1) = Some (String ''X'') \<and>
   Stringify 3 array_with_toJSON_store (Ref 1)
     = Some (''[true,null,'' @ [CHR 0x22, CHR ''a'', CHR 0x22] @ '',{''
             @ [CHR 0x22, CHR ''t'', CHR 0x22] @ '':null}]'')"
proof -
  have a: "is_array (array_with_toJSON_store 1)"
    by (simp add: array_with_toJSON_store_def)
  have b: "array_text 2 array_with_toJSON_store (elems (array_with_toJSON_store 1)) 0
     = Some (''[true,null,'' @ [CHR 0x22, CHR ''a'', CHR 0x22] @ '',{''
             @ [CHR 0x22, CHR ''t'', CHR 0x22] @ '':null}]'')"
    by code_simp
  from array_before_toJSON [of array_with_toJSON_store 1 2 new_builder 0 0 None Null] a b
  show ?thesis
    by (simp add: array_with_toJSON_store_def)
qed

section \<open>Numbers against the specification\<close>

text \<open>
  C5: for every double \<open>d\<close> (every 64-bit pattern), the serializer renders \<open>d\<close> as the
  four bytes \<open>null\<close> if and only if \<open>d\<close> is a NaN or an infinity. Every finite double
  is rendered as a JSON number token: when its value is an integer \<open>k\<close> of the
  safe-integer range, as the decimal digits of \<open>k\<close> (the \<open>%ld\<close> form); otherwise in
  the \<open>%.15g\<close> form. The serializer needs one unit of fuel for a number.
\<close>

theorem number_rendering:
  "(Stringify (Suc n) st (Number d) = Some ''null'') = (isnan d \<or> isinf d) \<and>
   (\<not> isnan d \<and> \<not> isinf d \<longrightarrow>
      (\<exists>s. Stringify (Suc n) st (Number d) = Some s \<and> is_number s)) \<and>
   (\<not> isnan d \<and> \<not> isinf d \<and> safe_integer_value d k \<longrightarrow>
      Stringify (Suc n) st (Number d) = Some (snprintf_ld k)) \<and>
   (\<not> isnan d \<and> \<not> isinf d \<and> (\<forall>j. \<not> safe_integer_value d j) \<longrightarrow>
      Stringify (Suc n) st (Number d) = Some (snprintf_g15 d))"
proof -
  have 1: "(number_text d = ''null'') = (isnan d \<or> isinf d)"
  proof (cases "isnan d \<or> isinf d")
    case True
    then show ?thesis by (simp add: number_text_def)
  next
    case False
    then have "is_number (number_text d)" by (simp add: is_number_number_text)
    with not_number_null have "number_text d \<noteq> ''null''" by metis
    with False show ?thesis by simp
  qed
  have 3: "number_text d = snprintf_ld k" if "\<not> isnan d" "\<not> isinf d" "safe_integer_value d k"
    using that safe_integer_value_to_int64 [of d k] by (simp add: number_text_def)
  have 4: "number_text d = snprintf_g15 d"
    if "\<not> isnan d" "\<not> isinf d" "\<forall>j. \<not> safe_integer_value d j"
    using that safe_integer_value_of [of d] by (auto simp add: number_text_def)
  from 1 3 4 show ?thesis
    by (auto simp add: Stringify_Number is_number_number_text)
qed

theorem number_rendering_witness:
  "isnan 0x7FF8000000000000 \<and>
   Stringify 1 empty_store (Number 0x7FF8000000000000) = Some ''null'' \<and>
   isinf 0x7FF0000000000000 \<and>
   Stringify 1 empty_store (Number 0x7FF0000000000000) = Some ''null'' \<and>
   \<not> isnan 0x3FF0000000000000 \<and> \<not> isinf 0x3FF0000000000000 \<and>
   safe_integer_value 0x3FF0000000000000 1 \<and>
   Stringify 1 empty_store (Number 0x3FF0000000000000) = Some ''1'' \<and>
   \<not> isnan 0x4004000000000000 \<and> \<not> isinf 0x4004000000000000 \<and>
   (\<forall>j. \<not> safe_integer_value 0x4004000000000000 j) \<and>
   Stringify 1 empty_store (Number 0x4004000000000000) = Some ''2.5'' \<and>
   is_number ''2.5''"
proof -
  have n: "isnan 0x7FF8000000000000" by (simp add: isnan_def fields_nan)
  have i: "isinf 0x7FF0000000000000" by (simp add: isinf_def fields_inf)
  have o: "\<not> isnan 0x3FF0000000000000" "\<not> isinf 0x3FF0000000000000"
    "safe_integer_value 0x3FF0000000000000 1"
    by (simp_all add: isnan_def isinf_def fields_one safe_integer_value_def value_one)
  have t: "\<not> isnan 0x4004000000000000" "\<not> isinf 0x4004000000000000"
    "\<forall>j. \<not> safe_integer_value 0x4004000000000000 j"
    by (simp_all add: isnan_def isinf_def fields_2_5 not_safe_2_5)
  from number_rendering [of 0 empty_store "0x7FF8000000000000" 0] n
  have 1: "Stringify 1 empty_store (Number 0x7FF8000000000000) = Some ''null''" by simp
  from number_rendering [of 0 empty_store "0x7FF0000000000000" 0] i
  have 2: "Stringify 1 empty_store (Number 0x7FF0000000000000) = Some ''null''" by simp
  from number_rendering [of 0 empty_store "0x3FF0000000000000" 1] o
  have 3: "Stringify 1 empty_store (Number 0x3FF0000000000000) = Some ''1''" by (simp add: ld_1)
  from number_rendering [of 0 empty_store "0x4004000000000000" 0] t
  have 4: "Stringify 1 empty_store (Number 0x4004000000000000) = Some ''2.5''"
    "is_number ''2.5''"
    by (auto simp add: g15_2_5)
  from n i o t 1 2 3 4 show ?thesis by simp
qed

section \<open>The serializer where it returns\<close>

text \<open>Whenever the serializer returns, what it returns is a JSON document.\<close>

lemma Stringify_json_value: "Stringify n st v = Some s \<Longrightarrow> json_value s"
  by (simp add: Stringify_text value_text_json)

text \<open>A result does not depend on the fuel: more fuel gives the same document.\<close>

lemma Stringify_more_fuel:
  "n \<le> m \<Longrightarrow> Stringify n st v = Some s \<Longrightarrow> Stringify m st v = Some s"
  by (simp add: Stringify_text value_text_fuel)

text \<open>
  Where no object of the store has a callable \<open>toJSON\<close> member, the depth check bounds
  the nesting of calls: twelve units of fuel suffice for every value, cyclic or not, and
  the result is a JSON document.
\<close>

lemma Stringify_without_toJSON:
  assumes "\<forall>a. toJSON (st a) = None"
  shows "\<exists>s. Stringify 12 st v = Some s \<and> json_value s"
proof -
  from value_text_total [OF assms, of 12 0 v] obtain s where s: "value_text 12 st v 0 = Some s"
    by auto
  with value_text_json [OF s] show ?thesis by (simp add: Stringify_text)
qed

text \<open>
  The array that holds itself: eleven brackets, for the depths 0 to 10, and \<open>null\<close> for
  the array at depth 11.
\<close>

lemma Stringify_self_array:
  "Stringify 12 self_array_store (Ref 0) = Some ''[[[[[[[[[[[null]]]]]]]]]]]''"
proof -
  have "value_text 12 self_array_store (Ref 0) 0 = Some ''[[[[[[[[[[[null]]]]]]]]]]]''"
    by code_simp
  then show ?thesis by (simp add: Stringify_text)
qed

end
